theory Spec2Isabelle
  imports Main "HOL-Library.Word" "HOL-Library.Signed_Division"
begin

section \<open>Machine integers\<close>

text \<open>
  The C++ type \<open>int\<close> is modelled as a 32-bit word read in two's complement: addition,
  subtraction, multiplication and negation wrap around, comparisons are the signed ones,
  and \<open>/\<close> and \<open>%\<close> truncate towards zero (the quotient and the remainder of the signed
  values, which always fit for the positive constant divisors used here).
\<close>

type_synonym int32 = "32 word"

definition c_div :: "int32 \<Rightarrow> int32 \<Rightarrow> int32" where
  "c_div a b = word_of_int (sint a sdiv sint b)"

definition c_mod :: "int32 \<Rightarrow> int32 \<Rightarrow> int32" where
  "c_mod a b = word_of_int (sint a smod sint b)"

definition int_min :: int32 where
  "int_min = - 2147483648"

subsection \<open>Signed values of the machine operations\<close>

lemma sint_of_int_eq32:
  "- 2147483648 \<le> k \<Longrightarrow> k < 2147483648 \<Longrightarrow> sint (word_of_int k :: int32) = k"
  by (simp add: sint_sbintrunc' signed_take_bit_int_eq_self)

lemma sint_bounds32: "- 2147483648 \<le> sint (a::int32)" "sint (a::int32) < 2147483648"
  using sint_ge [of a] sint_lt [of a] by simp_all

lemma sdiv_pos: "0 \<le> a \<Longrightarrow> 0 < b \<Longrightarrow> (a::int) sdiv b = a div b"
  by (simp add: signed_divide_int_def sgn_if)

lemma sdiv_neg: "a < 0 \<Longrightarrow> 0 < b \<Longrightarrow> (a::int) sdiv b = - ((- a) div b)"
  by (simp add: signed_divide_int_def sgn_if)

lemma smod_pos: "0 \<le> a \<Longrightarrow> 0 < b \<Longrightarrow> (a::int) smod b = a mod b"
  by (simp add: signed_modulo_int_def sgn_if)

lemma smod_neg: "a < 0 \<Longrightarrow> 0 < b \<Longrightarrow> (a::int) smod b = - ((- a) mod b)"
  by (simp add: signed_modulo_int_def sgn_if)

lemma sdiv_bounds:
  assumes "0 < (b::int)"
  shows "- \<bar>a\<bar> \<le> a sdiv b" "a sdiv b \<le> \<bar>a\<bar>"
  using sdiv_int_range [of a b] by auto

lemma smod_bounds:
  assumes "0 < (b::int)"
  shows "- b < a smod b" "a smod b < b"
  using smod_int_range [of b a] assms by auto

lemma sint_c_div:
  assumes "0 < sint k"
  shows "sint (c_div a k) = sint a sdiv sint k"
proof -
  have lo: "- 2147483648 \<le> sint a sdiv sint k"
    using sdiv_bounds(1) [OF assms, of "sint a"] sint_bounds32 [of a] by linarith
  have hi: "sint a sdiv sint k < 2147483648"
  proof (cases "0 \<le> sint a")
    case True
    then show ?thesis using sdiv_bounds(2) [OF assms, of "sint a"] sint_bounds32 [of a] by linarith
  next
    case False
    then have "sint a sdiv sint k \<le> 0"
      using assms by (simp add: sdiv_neg pos_imp_zdiv_nonneg_iff)
    then show ?thesis by linarith
  qed
  show ?thesis unfolding c_div_def by (rule sint_of_int_eq32 [OF lo hi])
qed

lemma sint_c_mod:
  assumes "0 < sint k"
  shows "sint (c_mod a k) = sint a smod sint k"
proof -
  have "- 2147483648 \<le> sint a smod sint k" "sint a smod sint k < 2147483648"
    using smod_bounds [OF assms, of "sint a"] sint_bounds32 [of k] by linarith+
  then show ?thesis unfolding c_mod_def by (rule sint_of_int_eq32)
qed

lemma sdiv_smod_floor:
  assumes "0 < (b::int)"
  shows "a smod b < 0 \<Longrightarrow> a sdiv b = a div b + 1 \<and> a smod b = a mod b - b"
    and "0 \<le> a smod b \<Longrightarrow> a sdiv b = a div b \<and> a smod b = a mod b"
proof -
  have m: "0 \<le> a mod b" "a mod b < b"
    using assms by simp_all
  show "a smod b < 0 \<Longrightarrow> a sdiv b = a div b + 1 \<and> a smod b = a mod b - b"
    using assms m
    by (cases "0 \<le> a")
       (simp_all add: sdiv_pos sdiv_neg smod_pos smod_neg zdiv_zminus1_eq_if zmod_zminus1_eq_if
          split: if_splits)
  show "0 \<le> a smod b \<Longrightarrow> a sdiv b = a div b \<and> a smod b = a mod b"
    using assms m
    by (cases "0 \<le> a")
       (simp_all add: sdiv_pos sdiv_neg smod_pos smod_neg zdiv_zminus1_eq_if zmod_zminus1_eq_if
          split: if_splits)
qed

lemma sint_add32:
  "- 2147483648 \<le> sint a + sint b \<Longrightarrow> sint a + sint b < 2147483648 \<Longrightarrow>
   sint (a + b :: int32) = sint a + sint b"
  by (simp add: sint_word_ariths signed_take_bit_int_eq_self)

lemma sint_sub32:
  "- 2147483648 \<le> sint a - sint b \<Longrightarrow> sint a - sint b < 2147483648 \<Longrightarrow>
   sint (a - b :: int32) = sint a - sint b"
  by (simp add: sint_word_ariths signed_take_bit_int_eq_self)

lemma sint_mult32:
  "- 2147483648 \<le> sint a * sint b \<Longrightarrow> sint a * sint b < 2147483648 \<Longrightarrow>
   sint (a * b :: int32) = sint a * sint b"
  by (simp add: sint_word_ariths signed_take_bit_int_eq_self)

section \<open>Fields and alignment tags\<close>

text \<open>
  The struct \<open>fields\<close> \<open>{y, m, d, hh, mm, ss}\<close>; the record fields carry the names of the
  accessors of \<open>civil_time\<close> that read them (\<open>year()\<close>, \<open>month()\<close>, ...).
\<close>

record fields =
  year :: int32
  month :: int32
  day :: int32
  hour :: int32
  minute :: int32
  second :: int32

datatype tag = second_tag | minute_tag | hour_tag | day_tag | month_tag | year_tag

section \<open>Field normalization\<close>

definition is_leap_year :: "int32 \<Rightarrow> bool" where
  "is_leap_year y \<longleftrightarrow> c_mod y 4 = 0 \<and> (c_mod y 100 \<noteq> 0 \<or> c_mod y 400 = 0)"

definition year_index :: "int32 \<Rightarrow> int32 \<Rightarrow> int32" where
  "year_index y m = c_mod (c_mod (y + of_bool (2 <s m)) 400 + 400) 400"

text \<open>
  The two 400-entry tables of the source, written row by row (twelve entries to a row,
  in the order of the source).
\<close>

definition k_days_per_century :: "int32 list" where
  "k_days_per_century = concat [
    [1, 0, 0, 0, 0, 0, 0, 0, 0, 0, 0, 0],
    [0, 0, 0, 0, 0, 0, 0, 0, 0, 0, 0, 0],
    [0, 0, 0, 0, 0, 0, 0, 0, 0, 0, 0, 0],
    [0, 0, 0, 0, 0, 0, 0, 0, 0, 0, 0, 0],
    [0, 0, 0, 0, 0, 0, 0, 0, 0, 0, 0, 0],
    [0, 0, 0, 0, 0, 0, 0, 0, 0, 0, 0, 0],
    [0, 0, 0, 0, 0, 0, 0, 0, 0, 0, 0, 0],
    [0, 0, 0, 0, 0, 0, 0, 0, 0, 0, 0, 0],
    [0, 0, 0, 0, 0, 0, 0, 0, 0, 0, 0, 0],
    [0, 0, 0, 0, 0, 0, 0, 0, 0, 0, 0, 0],
    [0, 0, 0, 0, 0, 0, 0, 0, 0, 0, 0, 0],
    [0, 0, 0, 0, 0, 0, 0, 0, 0, 0, 0, 0],
    [0, 0, 0, 0, 0, 0, 0, 0, 0, 0, 0, 0],
    [0, 0, 0, 0, 0, 0, 0, 0, 0, 0, 0, 0],
    [0, 0, 0, 0, 0, 0, 0, 0, 0, 0, 0, 0],
    [0, 0, 0, 0, 0, 0, 0, 0, 0, 0, 0, 0],
    [0, 0, 0, 0, 0, 0, 0, 0, 0, 0, 0, 0],
    [0, 0, 0, 0, 0, 0, 0, 0, 0, 0, 0, 0],
    [0, 0, 0, 0, 0, 0, 0, 0, 0, 0, 0, 0],
    [0, 0, 0, 0, 0, 0, 0, 0, 0, 0, 0, 0],
    [0, 0, 0, 0, 0, 0, 0, 0, 0, 0, 0, 0],
    [0, 0, 0, 0, 0, 0, 0, 0, 0, 0, 0, 0],
    [0, 0, 0, 0, 0, 0, 0, 0, 0, 0, 0, 0],
    [0, 0, 0, 0, 0, 0, 0, 0, 0, 0, 0, 0],
    [0, 0, 0, 0, 0, 0, 0, 0, 0, 0, 0, 0],
    [0, 1, 1, 1, 1, 1, 1, 1, 1, 1, 1, 1],
    [1, 1, 1, 1, 1, 1, 1, 1, 1, 1, 1, 1],
    [1, 1, 1, 1, 1, 1, 1, 1, 1, 1, 1, 1],
    [1, 1, 1, 1, 1, 1, 1, 1, 1, 1, 1, 1],
    [1, 1, 1, 1, 1, 1, 1, 1, 1, 1, 1, 1],
    [1, 1, 1, 1, 1, 1, 1, 1, 1, 1, 1, 1],
    [1, 1, 1, 1, 1, 1, 1, 1, 1, 1, 1, 1],
    [1, 1, 1, 1, 1, 1, 1, 1, 1, 1, 1, 1],
    [1, 1, 1, 1]
  ]"

definition days_per_century :: "int32 \<Rightarrow> int32 \<Rightarrow> int32" where
  "days_per_century y m = 36524 + k_days_per_century ! nat (sint (year_index y m))"

definition k_days_per_4years :: "int32 list" where
  "k_days_per_4years = concat [
    [1, 1, 1, 1, 1, 1, 1, 1, 1, 1, 1, 1],
    [1, 1, 1, 1, 1, 1, 1, 1, 1, 1, 1, 1],
    [1, 1, 1, 1, 1, 1, 1, 1, 1, 1, 1, 1],
    [1, 1, 1, 1, 1, 1, 1, 1, 1, 1, 1, 1],
    [1, 1, 1, 1, 1, 1, 1, 1, 1, 1, 1, 1],
    [1, 1, 1, 1, 1, 1, 1, 1, 1, 1, 1, 1],
    [1, 1, 1, 1, 1, 1, 1, 1, 1, 1, 1, 1],
    [1, 1, 1, 1, 1, 1, 1, 1, 1, 1, 1, 1],
    [1, 0, 0, 0, 0, 1, 1, 1, 1, 1, 1, 1],
    [1, 1, 1, 1, 1, 1, 1, 1, 1, 1, 1, 1],
    [1, 1, 1, 1, 1, 1, 1, 1, 1, 1, 1, 1],
    [1, 1, 1, 1, 1, 1, 1, 1, 1, 1, 1, 1],
    [1, 1, 1, 1, 1, 1, 1, 1, 1, 1, 1, 1],
    [1, 1, 1, 1, 1, 1, 1, 1, 1, 1, 1, 1],
    [1, 1, 1, 1, 1, 1, 1, 1, 1, 1, 1, 1],
    [1, 1, 1, 1, 1, 1, 1, 1, 1, 1, 1, 1],
    [1, 1, 1, 1, 1, 0, 0, 0, 0, 1, 1, 1],
    [1, 1, 1, 1, 1, 1, 1, 1, 1, 1, 1, 1],
    [1, 1, 1, 1, 1, 1, 1, 1, 1, 1, 1, 1],
    [1, 1, 1, 1, 1, 1, 1, 1, 1, 1, 1, 1],
    [1, 1, 1, 1, 1, 1, 1, 1, 1, 1, 1, 1],
    [1, 1, 1, 1, 1, 1, 1, 1, 1, 1, 1, 1],
    [1, 1, 1, 1, 1, 1, 1, 1, 1, 1, 1, 1],
    [1, 1, 1, 1, 1, 1, 1, 1, 1, 1, 1, 1],
    [1, 1, 1, 1, 1, 1, 1, 1, 1, 0, 0, 0],
    [0, 1, 1, 1, 1, 1, 1, 1, 1, 1, 1, 1],
    [1, 1, 1, 1, 1, 1, 1, 1, 1, 1, 1, 1],
    [1, 1, 1, 1, 1, 1, 1, 1, 1, 1, 1, 1],
    [1, 1, 1, 1, 1, 1, 1, 1, 1, 1, 1, 1],
    [1, 1, 1, 1, 1, 1, 1, 1, 1, 1, 1, 1],
    [1, 1, 1, 1, 1, 1, 1, 1, 1, 1, 1, 1],
    [1, 1, 1, 1, 1, 1, 1, 1, 1, 1, 1, 1],
    [1, 1, 1, 1, 1, 1, 1, 1, 1, 1, 1, 1],
    [1, 1, 1, 1]
  ]"

definition days_per_4years :: "int32 \<Rightarrow> int32 \<Rightarrow> int32" where
  "days_per_4years y m = 1460 + k_days_per_4years ! nat (sint (year_index y m))"

definition days_per_year :: "int32 \<Rightarrow> int32 \<Rightarrow> int32" where
  "days_per_year y m = (if is_leap_year (y + of_bool (2 <s m)) then 366 else 365)"

definition k_dpm :: "int32 list" where
  "k_dpm = [31, 28, 31, 30, 31, 30, 31, 31, 30, 31, 30, 31]"

text \<open>
  \<open>days_per_month\<close> reads \<open>k_dpm[m - 1]\<close>. The read is inside the table only for
  \<open>1 \<le> m \<le> 12\<close>; outside, the C++ behaviour is undefined, which the model reports
  as \<open>None\<close>.
\<close>

definition days_per_month :: "int32 \<Rightarrow> int32 \<Rightarrow> int32 option" where
  "days_per_month y m =
     (if 1 \<le>s m \<and> m \<le>s 12
      then Some (k_dpm ! nat (sint (m - 1)) + of_bool (m = 2 \<and> is_leap_year y))
      else None)"

subsection \<open>The lookup tables are read inside their bounds\<close>

lemma k_days_per_century_eq: "k_days_per_century = 1 # replicate 300 0 @ replicate 99 1"
  by code_simp

lemma k_days_per_4years_eq:
  "k_days_per_4years =
     replicate 97 1 @ replicate 4 0 @ replicate 96 1 @ replicate 4 0 @
     replicate 96 1 @ replicate 4 0 @ replicate 99 1"
  by code_simp

lemma k_days_per_century_nth:
  assumes "i < 400"
  shows "k_days_per_century ! i = (if i = 0 \<or> 301 \<le> i then 1 else 0)"
  using assms by (cases i) (auto simp: k_days_per_century_eq nth_append)

lemma k_days_per_4years_nth:
  assumes "i < 400"
  shows "k_days_per_4years ! i =
           (if (97 \<le> i \<and> i \<le> 100) \<or> (197 \<le> i \<and> i \<le> 200) \<or> (297 \<le> i \<and> i \<le> 300)
            then 0 else 1)"
  using assms by (auto simp: k_days_per_4years_eq nth_append)

lemma sint_year_index:
  "sint (year_index y m) = sint (y + of_bool (2 <s m)) mod 400"
proof -
  define x where "x = sint (y + of_bool (2 <s m))"
  have b: "- 400 < x smod 400" "x smod 400 < 400"
    using smod_bounds [of 400 x] by simp_all
  have inner: "sint (c_mod (y + of_bool (2 <s m)) 400 + 400) = x smod 400 + 400"
    using b by (subst sint_add32) (simp_all add: sint_c_mod x_def)
  have "sint (year_index y m) = (x smod 400 + 400) smod 400"
    unfolding year_index_def by (simp add: sint_c_mod inner)
  also have "\<dots> = (x smod 400 + 400) mod 400"
    using b by (simp add: smod_pos)
  also have "\<dots> = x mod 400"
    using sdiv_smod_floor [of 400 x] by (cases "x smod 400 < 0") simp_all
  finally show ?thesis by (simp add: x_def)
qed

lemma year_index_range: "0 \<le> sint (year_index y m)" "sint (year_index y m) < 400"
  by (simp_all add: sint_year_index)

lemma days_per_century_cases:
  "days_per_century y m = 36524 \<or> days_per_century y m = 36525"
  using year_index_range [of y m]
  by (simp add: days_per_century_def k_days_per_century_nth)

lemma days_per_4years_cases:
  "days_per_4years y m = 1460 \<or> days_per_4years y m = 1461"
  using year_index_range [of y m]
  by (simp add: days_per_4years_def k_days_per_4years_nth)

lemma days_per_year_cases:
  "days_per_year y m = 365 \<or> days_per_year y m = 366"
  by (simp add: days_per_year_def)

lemma days_per_century_pos: "0 < sint (days_per_century y m)"
  using days_per_century_cases [of y m] by auto

lemma days_per_4years_pos: "0 < sint (days_per_4years y m)"
  using days_per_4years_cases [of y m] by auto

lemma days_per_year_pos: "0 < sint (days_per_year y m)"
  using days_per_year_cases [of y m] by auto

lemma month_cases:
  assumes "1 \<le> sint (m::int32)" "sint m \<le> 12"
  shows "m = 1 \<or> m = 2 \<or> m = 3 \<or> m = 4 \<or> m = 5 \<or> m = 6 \<or>
         m = 7 \<or> m = 8 \<or> m = 9 \<or> m = 10 \<or> m = 11 \<or> m = 12"
proof -
  have "sint m = 1 \<or> sint m = 2 \<or> sint m = 3 \<or> sint m = 4 \<or> sint m = 5 \<or> sint m = 6 \<or>
        sint m = 7 \<or> sint m = 8 \<or> sint m = 9 \<or> sint m = 10 \<or> sint m = 11 \<or> sint m = 12"
    using assms by arith
  moreover have "sint m = k \<Longrightarrow> m = word_of_int k" for k
    by auto
  ultimately show ?thesis
    by fastforce
qed

lemma days_per_month_Some:
  assumes "days_per_month y m = Some n"
  shows "1 \<le> sint m \<and> sint m \<le> 12 \<and> 28 \<le> sint n \<and> sint n \<le> 31"
proof -
  have r: "1 \<le> sint m" "sint m \<le> 12"
    using assms by (auto simp: days_per_month_def word_sle_eq split: if_splits)
  have n: "n = k_dpm ! nat (sint (m - 1)) + of_bool (m = 2 \<and> is_leap_year y)"
    using assms by (auto simp: days_per_month_def split: if_splits)
  show ?thesis using month_cases [OF r] r unfolding n k_dpm_def by auto
qed

lemma loop_measure:
  assumes "n <s d" and "0 < sint n"
  shows "nat (sint (d - n :: int32)) < nat (sint d)"
proof -
  have lt: "sint n < sint d" using assms(1) by (simp add: word_sless_alt)
  have "sint (d - n) = sint d - sint n"
    using lt assms(2) sint_bounds32 [of d] by (intro sint_sub32) linarith+
  then show ?thesis using lt assms(2) by simp
qed

text \<open>
  The four loops of \<open>n_day\<close>. In the source each loop keeps the invariant that \<open>n\<close> is
  the length of the period starting at the current \<open>(y, m)\<close>; the recursive functions
  recompute it at the loop head.
\<close>

function century_loop :: "int32 \<Rightarrow> int32 \<Rightarrow> int32 \<Rightarrow> int32 \<times> int32" where
  "century_loop y m d =
     (let n = days_per_century y m
      in if n <s d then century_loop (y + 100) m (d - n) else (y, d))"
  by pat_completeness auto
termination
proof (relation "measure (\<lambda>(y, m, d). nat (sint d))")
  fix y m d n :: int32
  assume "n = days_per_century y m" and "n <s d"
  then show "((y + 100, m, d - n), (y, m, d)) \<in> measure (\<lambda>(y, m, d). nat (sint d))"
    using loop_measure [of n d] days_per_century_pos [of y m] by simp
qed simp

function four_year_loop :: "int32 \<Rightarrow> int32 \<Rightarrow> int32 \<Rightarrow> int32 \<times> int32" where
  "four_year_loop y m d =
     (let n = days_per_4years y m
      in if n <s d then four_year_loop (y + 4) m (d - n) else (y, d))"
  by pat_completeness auto
termination
proof (relation "measure (\<lambda>(y, m, d). nat (sint d))")
  fix y m d n :: int32
  assume "n = days_per_4years y m" and "n <s d"
  then show "((y + 4, m, d - n), (y, m, d)) \<in> measure (\<lambda>(y, m, d). nat (sint d))"
    using loop_measure [of n d] days_per_4years_pos [of y m] by simp
qed simp

function year_loop :: "int32 \<Rightarrow> int32 \<Rightarrow> int32 \<Rightarrow> int32 \<times> int32" where
  "year_loop y m d =
     (let n = days_per_year y m
      in if n <s d then year_loop (y + 1) m (d - n) else (y, d))"
  by pat_completeness auto
termination
proof (relation "measure (\<lambda>(y, m, d). nat (sint d))")
  fix y m d n :: int32
  assume "n = days_per_year y m" and "n <s d"
  then show "((y + 1, m, d - n), (y, m, d)) \<in> measure (\<lambda>(y, m, d). nat (sint d))"
    using loop_measure [of n d] days_per_year_pos [of y m] by simp
qed simp

function month_loop :: "int32 \<Rightarrow> int32 \<Rightarrow> int32 \<Rightarrow> (int32 \<times> int32 \<times> int32) option" where
  "month_loop y m d =
     (case days_per_month y m of
        None \<Rightarrow> None
      | Some n \<Rightarrow>
          if n <s d
          then (if m = 12 then month_loop (y + 1) 1 (d - n) else month_loop y (m + 1) (d - n))
          else Some (y, m, d))"
  by pat_completeness auto
termination
proof (relation "measure (\<lambda>(y, m, d). nat (sint d))")
  fix y m d n :: int32
  assume n: "days_per_month y m = Some n" and lt: "n <s d"
  have pos: "0 < sint n" using days_per_month_Some [OF n] by linarith
  show "((y + 1, 1, d - n), (y, m, d)) \<in> measure (\<lambda>(y, m, d). nat (sint d))"
    using loop_measure [OF lt pos] by simp
  show "((y, m + 1, d - n), (y, m, d)) \<in> measure (\<lambda>(y, m, d). nat (sint d))"
    using loop_measure [OF lt pos] by simp
qed simp



declare century_loop.simps [simp del] four_year_loop.simps [simp del]
  year_loop.simps [simp del] month_loop.simps [simp del]

definition n_day :: "int32 \<Rightarrow> int32 \<Rightarrow> int32 \<Rightarrow> int32 \<Rightarrow> int32 \<Rightarrow> int32 \<Rightarrow> int32 \<Rightarrow> fields option" where
  "n_day y m d c hh mm ss =
     (let y = y + c_div c 146097 * 400;
          c = c_mod c 146097;
          (y, c) = (if c <s 0 then (y - 400, c + 146097) else (y, c));
          y = y + c_div d 146097 * 400;
          d = c_mod d 146097 + c;
          (y, d) = (if d \<le>s 0 then (y - 400, d + 146097) else (y, d));
          (y, d) = century_loop y m d;
          (y, d) = four_year_loop y m d;
          (y, d) = year_loop y m d
      in case month_loop y m d of
           None \<Rightarrow> None
         | Some (y, m, d) \<Rightarrow>
             Some \<lparr>year = y, month = m, day = d, hour = hh, minute = mm, second = ss\<rparr>)"

definition n_mon :: "int32 \<Rightarrow> int32 \<Rightarrow> int32 \<Rightarrow> int32 \<Rightarrow> int32 \<Rightarrow> int32 \<Rightarrow> int32 \<Rightarrow> fields option" where
  "n_mon y m d cd hh mm ss =
     (let y = y + c_div m 12;
          m = c_mod m 12;
          (y, m) = (if m \<le>s 0 then (y - 1, m + 12) else (y, m))
      in n_day y m d cd hh mm ss)"

definition n_hour :: "int32 \<Rightarrow> int32 \<Rightarrow> int32 \<Rightarrow> int32 \<Rightarrow> int32 \<Rightarrow> int32 \<Rightarrow> int32 \<Rightarrow> fields option" where
  "n_hour y m d c hh mm ss =
     (let c = c + c_div hh 24;
          hh = c_mod hh 24;
          (c, hh) = (if hh <s 0 then (c - 1, hh + 24) else (c, hh))
      in n_mon y m d c hh mm ss)"

definition n_min :: "int32 \<Rightarrow> int32 \<Rightarrow> int32 \<Rightarrow> int32 \<Rightarrow> int32 \<Rightarrow> int32 \<Rightarrow> int32 \<Rightarrow> fields option" where
  "n_min y m d hh c mm ss =
     (let c = c + c_div mm 60;
          mm = c_mod mm 60;
          (c, mm) = (if mm <s 0 then (c - 1, mm + 60) else (c, mm))
      in n_hour y m d (c_div hh 24 + c_div c 24) (c_mod hh 24 + c_mod c 24) mm ss)"

definition n_sec :: "int32 \<Rightarrow> int32 \<Rightarrow> int32 \<Rightarrow> int32 \<Rightarrow> int32 \<Rightarrow> int32 \<Rightarrow> fields option" where
  "n_sec y m d hh mm ss =
     (let c = c_div ss 60;
          ss = c_mod ss 60;
          (c, ss) = (if ss <s 0 then (c - 1, ss + 60) else (c, ss))
      in n_min y m d hh (c_div mm 60 + c_div c 60) (c_mod mm 60 + c_mod c 60) ss)"

section \<open>Day ordinals\<close>

definition doy :: "int32 \<Rightarrow> int32 \<Rightarrow> int32" where
  "doy m d = c_div (153 * (m + (if 2 <s m then - 3 else 9)) + 2) 5 + d - 1"

definition doe :: "int32 \<Rightarrow> int32 \<Rightarrow> int32 \<Rightarrow> int32" where
  "doe yoe m d = yoe * 365 + c_div yoe 4 - c_div yoe 100 + doy m d"

definition era_eymd_ord :: "int32 \<Rightarrow> int32 \<Rightarrow> int32 \<Rightarrow> int32 \<Rightarrow> int32" where
  "era_eymd_ord era eyear m d = era * 146097 + doe (eyear - era * 400) m d - 719468"

definition eymd_ord :: "int32 \<Rightarrow> int32 \<Rightarrow> int32 \<Rightarrow> int32" where
  "eymd_ord eyear m d =
     era_eymd_ord (c_div (if 0 \<le>s eyear then eyear else eyear - 399) 400) eyear m d"

definition ymd_ord :: "int32 \<Rightarrow> int32 \<Rightarrow> int32 \<Rightarrow> int32" where
  "ymd_ord y m d = eymd_ord (if m \<le>s 2 then y - 1 else y) m d"

section \<open>Alignment, stepping and differences\<close>

fun align :: "tag \<Rightarrow> fields \<Rightarrow> fields" where
  "align second_tag f = f"
| "align minute_tag f =
     \<lparr>year = year f, month = month f, day = day f, hour = hour f, minute = minute f, second = 0\<rparr>"
| "align hour_tag f =
     \<lparr>year = year f, month = month f, day = day f, hour = hour f, minute = 0, second = 0\<rparr>"
| "align day_tag f =
     \<lparr>year = year f, month = month f, day = day f, hour = 0, minute = 0, second = 0\<rparr>"
| "align month_tag f =
     \<lparr>year = year f, month = month f, day = 1, hour = 0, minute = 0, second = 0\<rparr>"
| "align year_tag f =
     \<lparr>year = year f, month = 1, day = 1, hour = 0, minute = 0, second = 0\<rparr>"

fun step :: "tag \<Rightarrow> fields \<Rightarrow> int32 \<Rightarrow> fields option" where
  "step second_tag f n =
     n_sec (year f) (month f) (day f) (hour f) (minute f + c_div n 60) (second f + c_mod n 60)"
| "step minute_tag f n =
     n_min (year f) (month f) (day f) (hour f + c_div n 60) 0 (minute f + c_mod n 60) (second f)"
| "step hour_tag f n =
     n_hour (year f) (month f) (day f + c_div n 24) 0 (hour f + c_mod n 24) (minute f) (second f)"
| "step day_tag f n =
     n_day (year f) (month f) (day f) n (hour f) (minute f) (second f)"
| "step month_tag f n =
     n_mon (year f + c_div n 12) (month f + c_mod n 12) (day f) 0 (hour f) (minute f) (second f)"
| "step year_tag f n =
     Some \<lparr>year = year f + n, month = month f, day = day f,
           hour = hour f, minute = minute f, second = second f\<rparr>"

function difference :: "tag \<Rightarrow> fields \<Rightarrow> fields \<Rightarrow> int32" where
  "difference year_tag f1 f2 = year f1 - year f2"
| "difference month_tag f1 f2 = difference year_tag f1 f2 * 12 + (month f1 - month f2)"
| "difference day_tag f1 f2 =
     ymd_ord (year f1) (month f1) (day f1) - ymd_ord (year f2) (month f2) (day f2)"
| "difference hour_tag f1 f2 = difference day_tag f1 f2 * 24 + (hour f1 - hour f2)"
| "difference minute_tag f1 f2 = difference hour_tag f1 f2 * 60 + (minute f1 - minute f2)"
| "difference second_tag f1 f2 = difference minute_tag f1 f2 * 60 + (second f1 - second f2)"
  by pat_completeness auto
termination
  by (relation "measure (\<lambda>(T, f1, f2). case T of
        year_tag \<Rightarrow> 0 | month_tag \<Rightarrow> 1 | day_tag \<Rightarrow> 0 |
        hour_tag \<Rightarrow> 1 | minute_tag \<Rightarrow> 2 | second_tag \<Rightarrow> 3)") simp_all

section \<open>The civil-time value\<close>

text \<open>
  \<open>civil_time<T>\<close> owns one \<open>fields\<close> member; its alignment \<open>T\<close> is a template
  parameter, kept here beside the fields.
\<close>

record civil_time =
  tag_of :: tag
  rep :: fields

text \<open>The private designated constructor \<open>civil_time(fields f) : f_(align(T{}, f))\<close>.\<close>

definition from_fields :: "tag \<Rightarrow> fields \<Rightarrow> civil_time" where
  "from_fields T f = \<lparr>tag_of = T, rep = align T f\<rparr>"

text \<open>The public constructor \<open>civil_time(y, m, d, hh, mm, ss)\<close>.\<close>

definition make_civil_time ::
  "tag \<Rightarrow> int32 \<Rightarrow> int32 \<Rightarrow> int32 \<Rightarrow> int32 \<Rightarrow> int32 \<Rightarrow> int32 \<Rightarrow> civil_time option" where
  "make_civil_time T y m d hh mm ss = map_option (from_fields T) (n_sec y m d hh mm ss)"

text \<open>The default constructor \<open>civil_time() : civil_time(1970)\<close>.\<close>

definition default_civil_time :: "tag \<Rightarrow> civil_time option" where
  "default_civil_time T = make_civil_time T 1970 1 1 0 0 0"

text \<open>The converting constructors \<open>civil_time(const civil_time<U>& ct) : civil_time(ct.f_)\<close>.\<close>

definition convert :: "tag \<Rightarrow> civil_time \<Rightarrow> civil_time" where
  "convert T ct = from_fields T (rep ct)"

definition op_plus_assign :: "civil_time \<Rightarrow> int32 \<Rightarrow> civil_time option" where
  "op_plus_assign ct n = map_option (\<lambda>f. ct\<lparr>rep := f\<rparr>) (step (tag_of ct) (rep ct) n)"

definition op_minus_assign :: "civil_time \<Rightarrow> int32 \<Rightarrow> civil_time option" where
  "op_minus_assign ct n =
     (if n \<noteq> int_min
      then map_option (\<lambda>f. ct\<lparr>rep := f\<rparr>) (step (tag_of ct) (rep ct) (- n))
      else (case step (tag_of ct) (rep ct) (- (n + 1)) of
              None \<Rightarrow> None
            | Some f \<Rightarrow> map_option (\<lambda>f. ct\<lparr>rep := f\<rparr>) (step (tag_of ct) f 1)))"

definition op_plus :: "civil_time \<Rightarrow> int32 \<Rightarrow> civil_time option" where
  "op_plus a n = map_option (from_fields (tag_of a)) (step (tag_of a) (rep a) n)"

definition op_minus :: "civil_time \<Rightarrow> int32 \<Rightarrow> civil_time option" where
  "op_minus a n = map_option (from_fields (tag_of a)) (step (tag_of a) (rep a) (- n))"

text \<open>\<open>operator-(lhs, rhs)\<close> on two values of the same alignment.\<close>

definition op_diff :: "civil_time \<Rightarrow> civil_time \<Rightarrow> int32" where
  "op_diff lhs rhs = difference (tag_of lhs) (rep lhs) (rep rhs)"

section \<open>Relational operators\<close>

definition op_lt :: "civil_time \<Rightarrow> civil_time \<Rightarrow> bool" where
  "op_lt lhs rhs \<longleftrightarrow>
     (year (rep lhs) <s year (rep rhs) \<or>
      (year (rep lhs) = year (rep rhs) \<and>
       (month (rep lhs) <s month (rep rhs) \<or>
        (month (rep lhs) = month (rep rhs) \<and>
         (day (rep lhs) <s day (rep rhs) \<or>
          (day (rep lhs) = day (rep rhs) \<and>
           (hour (rep lhs) <s hour (rep rhs) \<or>
            (hour (rep lhs) = hour (rep rhs) \<and>
             (minute (rep lhs) <s minute (rep rhs) \<or>
              (minute (rep lhs) = minute (rep rhs) \<and>
               second (rep lhs) <s second (rep rhs)))))))))))"

definition op_le :: "civil_time \<Rightarrow> civil_time \<Rightarrow> bool" where
  "op_le lhs rhs \<longleftrightarrow> \<not> op_lt rhs lhs"

definition op_ge :: "civil_time \<Rightarrow> civil_time \<Rightarrow> bool" where
  "op_ge lhs rhs \<longleftrightarrow> \<not> op_lt lhs rhs"

definition op_gt :: "civil_time \<Rightarrow> civil_time \<Rightarrow> bool" where
  "op_gt lhs rhs \<longleftrightarrow> op_lt rhs lhs"

definition op_eq :: "civil_time \<Rightarrow> civil_time \<Rightarrow> bool" where
  "op_eq lhs rhs \<longleftrightarrow>
     year (rep lhs) = year (rep rhs) \<and> month (rep lhs) = month (rep rhs) \<and>
     day (rep lhs) = day (rep rhs) \<and> hour (rep lhs) = hour (rep rhs) \<and>
     minute (rep lhs) = minute (rep rhs) \<and> second (rep lhs) = second (rep rhs)"

definition op_ne :: "civil_time \<Rightarrow> civil_time \<Rightarrow> bool" where
  "op_ne lhs rhs \<longleftrightarrow> \<not> op_eq lhs rhs"

section \<open>Weekdays\<close>

datatype weekday = monday | tuesday | wednesday | thursday | friday | saturday | sunday

definition k_weekday_by_thu_off :: "weekday list" where
  "k_weekday_by_thu_off = [thursday, friday, saturday, sunday, monday, tuesday, wednesday]"

definition get_weekday :: "civil_time \<Rightarrow> weekday option" where
  "get_weekday cd =
     (case default_civil_time day_tag of
        None \<Rightarrow> None
      | Some epoch \<Rightarrow>
          Some (k_weekday_by_thu_off ! nat (sint (c_mod (c_mod (op_diff cd epoch) 7 + 7) 7))))"

section \<open>Reference calendar over the unbounded integers\<close>

text \<open>
  The proleptic Gregorian calendar on mathematical integers, with floored division.
  These definitions follow the calendar rules and the specification's description of
  the day ordinal, not the code; the theorems below relate the 32-bit code to them.
\<close>

definition leap_year :: "int \<Rightarrow> bool" where
  "leap_year Y \<longleftrightarrow> Y mod 4 = 0 \<and> (Y mod 100 \<noteq> 0 \<or> Y mod 400 = 0)"

definition days_in_month :: "int \<Rightarrow> int \<Rightarrow> int" where
  "days_in_month Y M =
     (if M = 2 then (if leap_year Y then 29 else 28)
      else if M = 4 \<or> M = 6 \<or> M = 9 \<or> M = 11 then 30 else 31)"

text \<open>
  The day ordinal as the specification words it: January and February count as the tail
  of the previous civil year, the era is the group of 400 years, and the ordinal is
  \<open>era * 146097 + day_of_era - 719468\<close>.
\<close>

definition civil_year :: "int \<Rightarrow> int \<Rightarrow> int" where
  "civil_year Y M = (if M \<le> 2 then Y - 1 else Y)"

definition day_of_civil_year :: "int \<Rightarrow> int \<Rightarrow> int" where
  "day_of_civil_year M D = (153 * (M + (if 2 < M then - 3 else 9)) + 2) div 5 + D - 1"

definition days_from_civil :: "int \<Rightarrow> int \<Rightarrow> int \<Rightarrow> int" where
  "days_from_civil Y M D =
     (let era = civil_year Y M div 400;
          yoe = civil_year Y M mod 400;
          day_of_era = yoe * 365 + yoe div 4 - yoe div 100 + day_of_civil_year M D
      in era * 146097 + day_of_era - 719468)"

text \<open>
  The days before 1 March of civil year \<open>E\<close>, up to a constant: the closed form of
  \<open>era * 146097 + yoe * 365 + yoe div 4 - yoe div 100\<close>.
\<close>

definition days_before_year :: "int \<Rightarrow> int" where
  "days_before_year E = 365 * E + E div 4 - E div 100 + E div 400"

text \<open>
  The day ordinal of fields that are not normalized: the month may be any integer and
  carries into the year with floored division, the day may be any integer and counts
  from the first day of that month.
\<close>

definition days_from_fields :: "int \<Rightarrow> int \<Rightarrow> int \<Rightarrow> int" where
  "days_from_fields Y M D = days_from_civil (Y + (M - 1) div 12) ((M - 1) mod 12 + 1) D"

text \<open>The instant of six fields that are not normalized, in seconds.\<close>

definition seconds_from_fields :: "int \<Rightarrow> int \<Rightarrow> int \<Rightarrow> int \<Rightarrow> int \<Rightarrow> int \<Rightarrow> int" where
  "seconds_from_fields Y M D h mi s = ((days_from_fields Y M D * 24 + h) * 60 + mi) * 60 + s"

text \<open>Months counted from year 0: month \<open>k\<close> is month \<open>k mod 12 + 1\<close> of year \<open>k div 12\<close>.\<close>

definition month_start :: "int \<Rightarrow> int" where
  "month_start k = days_from_civil (k div 12) (k mod 12 + 1) 1"

definition canonical_date :: "int \<Rightarrow> int \<Rightarrow> int \<Rightarrow> bool" where
  "canonical_date Y M D \<longleftrightarrow> 1 \<le> M \<and> M \<le> 12 \<and> 1 \<le> D \<and> D \<le> days_in_month Y M"

section \<open>Canonical form, alignment and ordinals of stored fields\<close>

definition canonical :: "fields \<Rightarrow> bool" where
  "canonical f \<longleftrightarrow>
     canonical_date (sint (year f)) (sint (month f)) (sint (day f)) \<and>
     0 \<le> sint (hour f) \<and> sint (hour f) < 24 \<and>
     0 \<le> sint (minute f) \<and> sint (minute f) < 60 \<and>
     0 \<le> sint (second f) \<and> sint (second f) < 60"

fun aligned :: "tag \<Rightarrow> fields \<Rightarrow> bool" where
  "aligned second_tag f \<longleftrightarrow> True"
| "aligned minute_tag f \<longleftrightarrow> second f = 0"
| "aligned hour_tag f \<longleftrightarrow> minute f = 0 \<and> second f = 0"
| "aligned day_tag f \<longleftrightarrow> hour f = 0 \<and> minute f = 0 \<and> second f = 0"
| "aligned month_tag f \<longleftrightarrow> day f = 1 \<and> hour f = 0 \<and> minute f = 0 \<and> second f = 0"
| "aligned year_tag f \<longleftrightarrow>
     month f = 1 \<and> day f = 1 \<and> hour f = 0 \<and> minute f = 0 \<and> second f = 0"

text \<open>The invariant of a \<open>civil_time<T>\<close> value.\<close>

definition valid :: "civil_time \<Rightarrow> bool" where
  "valid ct \<longleftrightarrow> canonical (rep ct) \<and> aligned (tag_of ct) (rep ct)"

text \<open>
  The position of stored fields on the time line, counted in units of an alignment:
  years, months since year 0, days since 1970-01-01, and hours, minutes and seconds
  since 1970-01-01 00:00:00.
\<close>

definition day_ord :: "fields \<Rightarrow> int" where
  "day_ord f = days_from_civil (sint (year f)) (sint (month f)) (sint (day f))"

fun ordinal :: "tag \<Rightarrow> fields \<Rightarrow> int" where
  "ordinal year_tag f = sint (year f)"
| "ordinal month_tag f = 12 * sint (year f) + (sint (month f) - 1)"
| "ordinal day_tag f = day_ord f"
| "ordinal hour_tag f = day_ord f * 24 + sint (hour f)"
| "ordinal minute_tag f = (day_ord f * 24 + sint (hour f)) * 60 + sint (minute f)"
| "ordinal second_tag f =
     ((day_ord f * 24 + sint (hour f)) * 60 + sint (minute f)) * 60 + sint (second f)"

text \<open>
  The supported range: the years -5877641 to 5881580, the years of the dates whose day
  ordinal fits 32 bits (the source documents the range -5877641-06-23 to 5881580-07-11).
  An ordinal is supported when it lies between the first instant of the first year and
  the first instant after the last year.
\<close>

definition start_of_year :: "int32 \<Rightarrow> fields" where
  "start_of_year y = \<lparr>year = y, month = 1, day = 1, hour = 0, minute = 0, second = 0\<rparr>"

definition supported :: "tag \<Rightarrow> int \<Rightarrow> bool" where
  "supported T k \<longleftrightarrow>
     ordinal T (start_of_year (- 5877641)) \<le> k \<and> k < ordinal T (start_of_year 5881581)"

text \<open>The lexicographic order on field tuples, as the specification words the comparison.\<close>

fun lex_less :: "int list \<Rightarrow> int list \<Rightarrow> bool" where
  "lex_less (a # as) (b # bs) \<longleftrightarrow> a < b \<or> (a = b \<and> lex_less as bs)"
| "lex_less _ _ \<longleftrightarrow> False"

definition field_tuple :: "civil_time \<Rightarrow> int list" where
  "field_tuple ct =
     [sint (year (rep ct)), sint (month (rep ct)), sint (day (rep ct)),
      sint (hour (rep ct)), sint (minute (rep ct)), sint (second (rep ct))]"

section \<open>Auxiliary notions for the proofs\<close>

text \<open>The carry prefix of \<open>n_day\<close>, before its loops.\<close>

definition n_day_carry :: "int32 \<Rightarrow> int32 \<Rightarrow> int32 \<Rightarrow> int32 \<times> int32" where
  "n_day_carry y d c =
     (let y = y + c_div c 146097 * 400;
          c = c_mod c 146097;
          (y, c) = (if c <s 0 then (y - 400, c + 146097) else (y, c));
          y = y + c_div d 146097 * 400;
          d = c_mod d 146097 + c;
          (y, d) = (if d \<le>s 0 then (y - 400, d + 146097) else (y, d))
      in (y, d))"

text \<open>
  Day ordinals for which the proofs below show the 32-bit computation exact; the
  supported range lies well inside.
\<close>

definition safe_day :: "int \<Rightarrow> bool" where
  "safe_day N \<longleftrightarrow> - 779800000000 \<le> N \<and> N \<le> 779800000000"

text \<open>The same range for ordinals counted in the units of an alignment.\<close>

fun safe :: "tag \<Rightarrow> int \<Rightarrow> bool" where
  "safe year_tag k \<longleftrightarrow> - 2147483648 \<le> k \<and> k < 2147483648"
| "safe month_tag k \<longleftrightarrow> - 2147483648 \<le> k div 12 \<and> k div 12 < 2147483648"
| "safe day_tag k \<longleftrightarrow> safe_day k"
| "safe hour_tag k \<longleftrightarrow> safe_day (k div 24)"
| "safe minute_tag k \<longleftrightarrow> safe_day (k div 60 div 24)"
| "safe second_tag k \<longleftrightarrow> safe_day (k div 60 div 60 div 24)"

section \<open>Properties of the reference calendar\<close>

lemma div_add_small:
  assumes "0 < k" "0 \<le> n" "n < k"
  shows "((r::int) + n) div k = r div k + (if k \<le> r mod k + n then 1 else 0)"
    and "(r + n) mod k = (if k \<le> r mod k + n then r mod k + n - k else r mod k + n)"
proof -
  have b: "0 \<le> r mod k" "r mod k < k" using assms by simp_all
  have e: "r + n = k * (r div k) + (r mod k + n)" by simp
  have dv: "(r + n) div k = r div k + (if k \<le> r mod k + n then 1 else 0)"
  proof (cases "k \<le> r mod k + n")
    case True
    have "r + n = k * (r div k + 1) + (r mod k + n - k)"
      using e by (simp add: algebra_simps)
    moreover have "0 \<le> r mod k + n - k" "r mod k + n - k < k"
      using b assms True by linarith+
    ultimately have "(r + n) div k = r div k + 1"
      by (rule int_div_pos_eq)
    then show ?thesis using True by simp
  next
    case False
    have "0 \<le> r mod k + n" "r mod k + n < k"
      using b assms False by linarith+
    with e have "(r + n) div k = r div k"
      by (rule int_div_pos_eq)
    then show ?thesis using False by simp
  qed
  show "(r + n) div k = r div k + (if k \<le> r mod k + n then 1 else 0)"
    by (rule dv)
  have "(r + n) mod k = (r + n) - k * ((r + n) div k)"
    by (simp add: minus_mult_div_eq_mod)
  also have "\<dots> = (r mod k + k * (r div k)) + n - k * (r div k + (if k \<le> r mod k + n then 1 else 0))"
    unfolding dv by simp
  also have "\<dots> = (if k \<le> r mod k + n then r mod k + n - k else r mod k + n)"
    by (simp add: algebra_simps)
  finally show "(r + n) mod k = (if k \<le> r mod k + n then r mod k + n - k else r mod k + n)" .
qed

lemma era_split:
  "(E div 400) * 146097 + ((E mod 400) * 365 + (E mod 400) div 4 - (E mod 400) div 100)
     = days_before_year E"
proof -
  define q r where "q = E div 400" and "r = E mod 400"
  have E: "E = r + 400 * q" by (simp add: q_def r_def)
  have r: "0 \<le> r" "r < 400" by (simp_all add: r_def)
  have d4: "E div 4 = r div 4 + 100 * q"
    unfolding E by (simp add: div_mult_self2 [of 4 r "100 * q"] )
  have d100: "E div 100 = r div 100 + 4 * q"
    unfolding E using div_mult_self2 [of 100 r "4 * q"] by simp
  show ?thesis
    unfolding days_before_year_def d4 d100 q_def [symmetric] r_def [symmetric]
    by (simp add: E)
qed


lemma dfc_alt:
  "days_from_civil Y M D =
     days_before_year (civil_year Y M) + day_of_civil_year M D - 719468"
  by (simp add: days_from_civil_def Let_def era_split [symmetric])

lemma dby_century:
  "days_before_year (E + 100) = days_before_year E + 36524 + (if 300 \<le> E mod 400 then 1 else 0)"
proof -
  have d4: "(E + 100) div 4 = E div 4 + 25" and d100: "(E + 100) div 100 = E div 100 + 1"
    by simp_all
  have c: "400 \<le> E mod 400 + 100 \<longleftrightarrow> 300 \<le> E mod 400"
    by linarith
  have d400: "(E + 100) div 400 = E div 400 + (if 300 \<le> E mod 400 then 1 else 0)"
    using div_add_small(1) [of 400 100 E] unfolding c by simp
  define a :: int where "a = (if 300 \<le> E mod 400 then 1 else 0)"
  have lin: "365 * (E + 100) + (q4 + 25) - (q100 + 1) + (q400 + a) =
      365 * E + q4 - q100 + q400 + 36524 + a" for q4 q100 q400 :: int
    by simp
  show ?thesis
    unfolding days_before_year_def d4 d100 d400 a_def [symmetric]
    by (rule lin)
qed

lemma mod_100_of_400: "(E::int) mod 400 mod 100 = E mod 100"
  by (simp add: mod_mod_cancel)

lemma mod_4_of_100: "(E::int) mod 100 mod 4 = E mod 4"
  by (simp add: mod_mod_cancel)

lemma dby_4:
  "days_before_year (E + 4) =
     days_before_year E + 1461 - (if 96 \<le> E mod 100 then 1 else 0)
       + (if 396 \<le> E mod 400 then 1 else 0)"
proof -
  have d4: "(E + 4) div 4 = E div 4 + 1"
    by simp
  have d100: "(E + 4) div 100 = E div 100 + (if 96 \<le> E mod 100 then 1 else 0)"
    using div_add_small(1) [of 100 4 E] by simp
  have d400: "(E + 4) div 400 = E div 400 + (if 396 \<le> E mod 400 then 1 else 0)"
    using div_add_small(1) [of 400 4 E] by simp
  define a b :: int where "a = (if 96 \<le> E mod 100 then 1 else 0)"
    and "b = (if 396 \<le> E mod 400 then 1 else 0)"
  have lin: "365 * (E + 4) + (q4 + 1) - (q100 + a) + (q400 + b) =
      365 * E + q4 - q100 + q400 + 1461 - a + b" for q4 q100 q400 :: int
    by simp
  show ?thesis
    unfolding days_before_year_def d4 d100 d400 a_def [symmetric] b_def [symmetric]
    by (rule lin)
qed

lemma leap_year_succ:
  "leap_year (E + 1) \<longleftrightarrow> E mod 4 = 3 \<and> (E mod 100 \<noteq> 99 \<or> E mod 400 = 399)"
proof -
  have m4: "0 \<le> E mod 4" "E mod 4 < 4" and m100: "0 \<le> E mod 100" "E mod 100 < 100"
    and m400: "0 \<le> E mod 400" "E mod 400 < 400"
    by simp_all
  have "(E + 1) mod 4 = (if 4 \<le> E mod 4 + 1 then E mod 4 + 1 - 4 else E mod 4 + 1)"
    using div_add_small(2) [of 4 1 E] by simp
  then have a: "(E + 1) mod 4 = 0 \<longleftrightarrow> E mod 4 = 3"
    using m4 by (auto split: if_splits)
  have "(E + 1) mod 100 = (if 100 \<le> E mod 100 + 1 then E mod 100 + 1 - 100 else E mod 100 + 1)"
    using div_add_small(2) [of 100 1 E] by simp
  then have b: "(E + 1) mod 100 = 0 \<longleftrightarrow> E mod 100 = 99"
    using m100 by (auto split: if_splits)
  have "(E + 1) mod 400 = (if 400 \<le> E mod 400 + 1 then E mod 400 + 1 - 400 else E mod 400 + 1)"
    using div_add_small(2) [of 400 1 E] by simp
  then have c: "(E + 1) mod 400 = 0 \<longleftrightarrow> E mod 400 = 399"
    using m400 by (auto split: if_splits)
  show ?thesis
    unfolding leap_year_def a b c ..
qed

lemma dby_1:
  "days_before_year (E + 1) = days_before_year E + 365 + (if leap_year (E + 1) then 1 else 0)"
proof -
  have m4: "0 \<le> E mod 4" "E mod 4 < 4" and m100: "0 \<le> E mod 100" "E mod 100 < 100"
    and m400: "0 \<le> E mod 400" "E mod 400 < 400"
    by simp_all
  have e4: "4 \<le> E mod 4 + 1 \<longleftrightarrow> E mod 4 = 3" using m4 by linarith
  have e100: "100 \<le> E mod 100 + 1 \<longleftrightarrow> E mod 100 = 99" using m100 by linarith
  have e400: "400 \<le> E mod 400 + 1 \<longleftrightarrow> E mod 400 = 399" using m400 by linarith
  have d4: "(E + 1) div 4 = E div 4 + (if E mod 4 = 3 then 1 else 0)"
    using div_add_small(1) [of 4 1 E] unfolding e4 by simp
  have d100: "(E + 1) div 100 = E div 100 + (if E mod 100 = 99 then 1 else 0)"
    using div_add_small(1) [of 100 1 E] unfolding e100 by simp
  have d400: "(E + 1) div 400 = E div 400 + (if E mod 400 = 399 then 1 else 0)"
    using div_add_small(1) [of 400 1 E] unfolding e400 by simp
  have i1: "E mod 100 = 99 \<Longrightarrow> E mod 4 = 3"
    using mod_4_of_100 [of E] by simp
  have i2: "E mod 400 = 399 \<Longrightarrow> E mod 100 = 99"
    using mod_100_of_400 [of E] by simp
  have k: "(if E mod 4 = 3 then 1 else 0) - (if E mod 100 = 99 then 1 else 0)
          + (if E mod 400 = 399 then 1 else 0) = (if leap_year (E + 1) then 1 else (0::int))"
  proof (cases "E mod 400 = 399")
    case True
    then show ?thesis using i1 [OF i2 [OF True]] i2 [OF True] by (simp add: leap_year_succ)
  next
    case n400: False
    show ?thesis
    proof (cases "E mod 100 = 99")
      case True
      then show ?thesis using n400 i1 [OF True] by (simp add: leap_year_succ)
    next
      case False
      then show ?thesis using n400 by (simp add: leap_year_succ)
    qed
  qed
  define a b c :: int where "a = (if E mod 4 = 3 then 1 else 0)"
    and "b = (if E mod 100 = 99 then 1 else 0)" and "c = (if E mod 400 = 399 then 1 else 0)"
  have lin: "365 * (E + 1) + (q4 + a) - (q100 + b) + (q400 + c) =
      365 * E + q4 - q100 + q400 + 365 + (a - b + c)" for q4 q100 q400 :: int
    by simp
  have "days_before_year (E + 1) = days_before_year E + 365 + (a - b + c)"
    unfolding days_before_year_def d4 d100 d400 a_def [symmetric] b_def [symmetric]
      c_def [symmetric]
    by (rule lin)
  then show ?thesis unfolding k [symmetric] a_def b_def c_def .
qed

lemma civil_year_succ: "civil_year (Y + k) M = civil_year Y M + k"
  by (simp add: civil_year_def)

lemma dfc_century:
  "days_from_civil (Y + 100) M D =
     days_from_civil Y M D + 36524 + (if 300 \<le> civil_year Y M mod 400 then 1 else 0)"
  by (simp add: dfc_alt civil_year_succ dby_century)

lemma dfc_4years:
  "days_from_civil (Y + 4) M D =
     days_from_civil Y M D + 1461 - (if 96 \<le> civil_year Y M mod 100 then 1 else 0)
       + (if 396 \<le> civil_year Y M mod 400 then 1 else 0)"
  by (simp add: dfc_alt civil_year_succ dby_4)

lemma dfc_year:
  "days_from_civil (Y + 1) M D =
     days_from_civil Y M D + 365 + (if leap_year (civil_year Y M + 1) then 1 else 0)"
  by (simp add: dfc_alt civil_year_succ dby_1)

lemma dfc_day: "days_from_civil Y M D = days_from_civil Y M 1 + D - 1"
  by (simp add: dfc_alt day_of_civil_year_def)

lemma int_month_cases:
  assumes "1 \<le> (M::int)" "M \<le> 12"
  shows "M = 1 \<or> M = 2 \<or> M = 3 \<or> M = 4 \<or> M = 5 \<or> M = 6 \<or>
         M = 7 \<or> M = 8 \<or> M = 9 \<or> M = 10 \<or> M = 11 \<or> M = 12"
  using assms by arith

lemma dfc_next_month:
  assumes "1 \<le> M" "M < 12"
  shows "days_from_civil Y (M + 1) 1 = days_from_civil Y M 1 + days_in_month Y M"
proof -
  have feb: "days_before_year (Y - 1) = days_before_year Y - 365 - (if leap_year Y then 1 else 0)"
    using dby_1 [of "Y - 1"] by simp
  have "M = 1 \<or> M = 2 \<or> M = 3 \<or> M = 4 \<or> M = 5 \<or> M = 6 \<or>
        M = 7 \<or> M = 8 \<or> M = 9 \<or> M = 10 \<or> M = 11"
    using assms by arith
  then show ?thesis
    by (elim disjE)
       (simp_all add: dfc_alt civil_year_def day_of_civil_year_def days_in_month_def feb)
qed

lemma dfc_next_january:
  "days_from_civil (Y + 1) 1 1 = days_from_civil Y 12 1 + 31"
  by (simp add: dfc_alt civil_year_def day_of_civil_year_def)


lemma dfc_400: "days_from_civil (Y + 400 * k) M D = days_from_civil Y M D + 146097 * k"
proof -
  have "civil_year (Y + 400 * k) M = civil_year Y M + k * 400"
    by (simp add: civil_year_def)
  then show ?thesis
    by (simp add: days_from_civil_def Let_def)
qed

lemma month_start_succ:
  "month_start (k + 1) = month_start k + days_in_month (k div 12) (k mod 12 + 1)"
proof -
  have b: "0 \<le> k mod 12" "k mod 12 < 12" by simp_all
  show ?thesis
  proof (cases "k mod 12 = 11")
    case True
    have "(k + 1) div 12 = k div 12 + 1" "(k + 1) mod 12 = 0"
      using div_add_small [of 12 1 k] True by simp_all
    then show ?thesis
      using True dfc_next_january [of "k div 12"]
      by (simp add: month_start_def days_in_month_def)
  next
    case False
    then have lt: "k mod 12 + 1 < 12" using b by linarith
    then have n: "\<not> 12 \<le> k mod 12 + 1" by simp
    have "(k + 1) div 12 = k div 12" "(k + 1) mod 12 = k mod 12 + 1"
      using div_add_small [of 12 1 k] n by simp_all
    then show ?thesis
      using dfc_next_month [of "k mod 12 + 1" "k div 12"] lt b
      by (simp add: month_start_def)
  qed
qed

lemma days_in_month_bounds: "28 \<le> days_in_month Y M" "days_in_month Y M \<le> 31"
  by (simp_all add: days_in_month_def)

lemma month_start_mono_nat: "month_start k + 28 * int n \<le> month_start (k + int n)"
proof (induction n)
  case 0
  then show ?case by simp
next
  case (Suc n)
  have "month_start (k + int (Suc n)) = month_start ((k + int n) + 1)"
    by (simp add: ac_simps)
  also have "\<dots> = month_start (k + int n) + days_in_month ((k + int n) div 12) ((k + int n) mod 12 + 1)"
    by (rule month_start_succ)
  finally show ?case
    using Suc days_in_month_bounds(1) [of "(k + int n) div 12" "(k + int n) mod 12 + 1"]
    by simp
qed

lemma month_start_mono:
  assumes "a \<le> b"
  shows "month_start a + 28 * (b - a) \<le> month_start b"
  using month_start_mono_nat [of a "nat (b - a)"] assms by simp

lemma month_start_upper_nat: "month_start (k + int n) \<le> month_start k + 31 * int n"
proof (induction n)
  case 0
  then show ?case by simp
next
  case (Suc n)
  have "month_start (k + int (Suc n)) = month_start ((k + int n) + 1)"
    by (simp add: ac_simps)
  also have "\<dots> = month_start (k + int n) + days_in_month ((k + int n) div 12) ((k + int n) mod 12 + 1)"
    by (rule month_start_succ)
  finally show ?case
    using Suc days_in_month_bounds(2) [of "(k + int n) div 12" "(k + int n) mod 12 + 1"]
    by simp
qed

lemma month_index:
  assumes "1 \<le> (M::int)" "M \<le> 12"
  shows "(12 * Y + (M - 1)) div 12 = Y" "(12 * Y + (M - 1)) mod 12 + 1 = M"
proof -
  have e: "12 * Y + (M - 1) = 12 * Y + (M - 1)" ..
  have r: "0 \<le> M - 1" "M - 1 < 12" using assms by simp_all
  show "(12 * Y + (M - 1)) div 12 = Y"
    using e r by (rule int_div_pos_eq)
  have "(12 * Y + (M - 1)) mod 12 = M - 1"
    using e r by (rule int_mod_pos_eq)
  then show "(12 * Y + (M - 1)) mod 12 + 1 = M" by simp
qed

lemma canonical_date_window:
  assumes "canonical_date Y M D"
  shows "month_start (12 * Y + (M - 1)) \<le> days_from_civil Y M D"
    and "days_from_civil Y M D < month_start (12 * Y + (M - 1) + 1)"
proof -
  have m: "1 \<le> M" "M \<le> 12" and d: "1 \<le> D" "D \<le> days_in_month Y M"
    using assms by (simp_all add: canonical_date_def)
  have s: "month_start (12 * Y + (M - 1)) = days_from_civil Y M 1"
    unfolding month_start_def month_index [OF m] ..
  show "month_start (12 * Y + (M - 1)) \<le> days_from_civil Y M D"
    unfolding s using d(1) dfc_day [of Y M D] by linarith
  have "month_start (12 * Y + (M - 1) + 1) = days_from_civil Y M 1 + days_in_month Y M"
    unfolding month_start_succ month_index [OF m] s ..
  then show "days_from_civil Y M D < month_start (12 * Y + (M - 1) + 1)"
    using d(2) dfc_day [of Y M D] by linarith
qed

lemma days_from_civil_inj:
  assumes a: "canonical_date Y M D" and b: "canonical_date Y' M' D'"
    and eq: "days_from_civil Y M D = days_from_civil Y' M' D'"
  shows "Y = Y' \<and> M = M' \<and> D = D'"
proof -
  define k k' where "k = 12 * Y + (M - 1)" and "k' = 12 * Y' + (M' - 1)"
  note wa = canonical_date_window [OF a, folded k_def]
  note wb = canonical_date_window [OF b, folded k'_def]
  have "\<not> k < k'"
  proof
    assume "k < k'"
    then have "month_start (k + 1) \<le> month_start k'"
      using month_start_mono [of "k + 1" k'] by simp
    then show False using wa wb eq by linarith
  qed
  moreover have "\<not> k' < k"
  proof
    assume "k' < k"
    then have "month_start (k' + 1) \<le> month_start k"
      using month_start_mono [of "k' + 1" k] by simp
    then show False using wa wb eq by linarith
  qed
  ultimately have kk: "k = k'" by simp
  have m: "1 \<le> M" "M \<le> 12" and m': "1 \<le> M'" "M' \<le> 12"
    using a b by (simp_all add: canonical_date_def)
  have "Y = k div 12" "M = k mod 12 + 1" "Y' = k' div 12" "M' = k' mod 12 + 1"
    unfolding k_def k'_def using month_index [OF m] month_index [OF m'] by simp_all
  then have ym: "Y = Y'" "M = M'" using kk by simp_all
  then have "D = D'"
    using eq dfc_day [of Y M D] dfc_day [of Y' M' D'] by simp
  with ym show ?thesis by simp
qed


lemma days_before_year_bounds:
  "146097 * E - 699 \<le> 400 * days_before_year E"
  "400 * days_before_year E \<le> 146097 * E + 396"
proof -
  have lin: "4 * q4 = E - r4 \<Longrightarrow> 0 \<le> r4 \<Longrightarrow> r4 < 4 \<Longrightarrow>
      100 * q100 = E - r100 \<Longrightarrow> 0 \<le> r100 \<Longrightarrow> r100 < 100 \<Longrightarrow>
      400 * q400 = E - r400 \<Longrightarrow> 0 \<le> r400 \<Longrightarrow> r400 < 400 \<Longrightarrow>
      146097 * E - 699 \<le> 400 * (365 * E + q4 - q100 + q400) \<and>
      400 * (365 * E + q4 - q100 + q400) \<le> 146097 * E + 396"
    for q4 r4 q100 r100 q400 r400 :: int
    by (simp add: algebra_simps)
  have "146097 * E - 699 \<le> 400 * (365 * E + E div 4 - E div 100 + E div 400) \<and>
      400 * (365 * E + E div 4 - E div 100 + E div 400) \<le> 146097 * E + 396"
    by (rule lin [of "E div 4" "E mod 4" "E div 100" "E mod 100" "E div 400" "E mod 400"])
       (simp_all add: minus_mod_eq_mult_div [symmetric])
  then show "146097 * E - 699 \<le> 400 * days_before_year E"
    and "400 * days_before_year E \<le> 146097 * E + 396"
    by (simp_all add: days_before_year_def)
qed

lemma day_of_civil_year_bounds:
  assumes "1 \<le> M" "M \<le> 12"
  shows "0 \<le> day_of_civil_year M 1" "day_of_civil_year M 1 \<le> 337"
  using int_month_cases [OF assms]
  by (auto simp: day_of_civil_year_def)

lemma days_from_civil_bounds:
  assumes "1 \<le> M" "M \<le> 12"
  shows "146097 * Y - 146796 \<le> 400 * (days_from_civil Y M 1 + 719468)"
    and "400 * (days_from_civil Y M 1 + 719468) \<le> 146097 * Y + 135196"
proof -
  define E where "E = civil_year Y M"
  have E: "Y - 1 \<le> E" "E \<le> Y" by (simp_all add: E_def civil_year_def)
  note b = days_before_year_bounds [of E] day_of_civil_year_bounds [OF assms]
  have eq: "days_from_civil Y M 1 + 719468 = days_before_year E + day_of_civil_year M 1"
    by (simp add: dfc_alt E_def)
  show "146097 * Y - 146796 \<le> 400 * (days_from_civil Y M 1 + 719468)"
    unfolding eq using b E by (simp add: algebra_simps)
  show "400 * (days_from_civil Y M 1 + 719468) \<le> 146097 * Y + 135196"
    unfolding eq using b E by (simp add: algebra_simps)
qed

section \<open>The code against the reference calendar\<close>

subsection \<open>Leap years and period lengths\<close>

lemma smod_eq_0_iff:
  assumes "0 < (b::int)"
  shows "a smod b = 0 \<longleftrightarrow> a mod b = 0"
proof (cases "a smod b < 0")
  case True
  then have "a smod b = a mod b - b"
    using sdiv_smod_floor(1) [OF assms] by simp
  then show ?thesis
    using True smod_bounds(1) [OF assms, of a] by auto
next
  case False
  then have "a smod b = a mod b"
    using sdiv_smod_floor(2) [OF assms, of a] by simp
  then show ?thesis by simp
qed

lemma c_mod_eq_0_iff:
  assumes "0 < sint k"
  shows "c_mod a k = 0 \<longleftrightarrow> sint a mod sint k = 0"
proof -
  have "c_mod a k = 0 \<longleftrightarrow> sint (c_mod a k) = 0"
    by (simp add: signed_eq_0_iff)
  then show ?thesis
    by (simp add: sint_c_mod [OF assms] smod_eq_0_iff [OF assms])
qed

lemma sint_is_leap_year: "is_leap_year y \<longleftrightarrow> leap_year (sint y)"
  unfolding is_leap_year_def leap_year_def
  by (simp add: c_mod_eq_0_iff)

lemma days_per_month_eq:
  assumes "1 \<le> sint m" "sint m \<le> 12"
  shows "\<exists>n. days_per_month y m = Some n \<and> sint n = days_in_month (sint y) (sint m)"
  using month_cases [OF assms]
  by (elim disjE)
     (simp_all add: days_per_month_def k_dpm_def days_in_month_def sint_is_leap_year word_sle_eq)

lemma sint_year_shift:
  assumes "sint (y::int32) < 2147483647"
  shows "sint (y + of_bool (2 <s (m::int32))) = civil_year (sint y) (sint m) + 1"
proof -
  have "sint (y + of_bool (2 <s m)) = sint y + sint (of_bool (2 <s m) :: int32)"
    using assms sint_bounds32 [of y] by (intro sint_add32) (simp_all split: if_splits)
  then show ?thesis
    by (simp add: civil_year_def word_sless_alt)
qed

lemma mod_400_succ:
  "(E + 1) mod 400 = (if E mod 400 = 399 then 0 else E mod 400 + (1::int))"
proof -
  have "0 \<le> E mod 400" "E mod 400 < 400" by simp_all
  then have "400 \<le> E mod 400 + 1 \<longleftrightarrow> E mod 400 = 399" by linarith
  then show ?thesis
    using div_add_small(2) [of 400 1 E] by simp
qed

lemma sint_days_per_century:
  assumes "sint y < 2147483647"
  shows "sint (days_per_century y m) =
           36524 + (if 300 \<le> civil_year (sint y) (sint m) mod 400 then 1 else 0)"
proof -
  define E where "E = civil_year (sint y) (sint m)"
  have i: "sint (year_index y m) = (E + 1) mod 400"
    by (simp add: sint_year_index sint_year_shift [OF assms] E_def)
  have b: "0 \<le> E mod 400" "E mod 400 < 400" by simp_all
  define j where "j = nat ((E + 1) mod 400)"
  have r: "j < 400" by (simp add: j_def)
  have j: "j = (if E mod 400 = 399 then 0 else nat (E mod 400) + 1)"
    unfolding j_def mod_400_succ using b by (simp add: nat_add_distrib)
  have "k_days_per_century ! j = (if 300 \<le> E mod 400 then 1 else 0)"
    unfolding k_days_per_century_nth [OF r] using b by (auto simp: j)
  then have "k_days_per_century ! nat (sint (year_index y m)) = (if 300 \<le> E mod 400 then 1 else 0)"
    by (simp add: i j_def)
  then show ?thesis
    by (simp add: days_per_century_def E_def)
qed


lemma mod_400_by_100:
  fixes r :: int
  assumes "0 \<le> r" "r < 400"
  shows "96 \<le> r mod 100 \<longleftrightarrow>
           (96 \<le> r \<and> r \<le> 99) \<or> (196 \<le> r \<and> r \<le> 199) \<or> (296 \<le> r \<and> r \<le> 299) \<or> 396 \<le> r"
proof -
  have lin: "r = 100 * q + t \<Longrightarrow> 0 \<le> t \<Longrightarrow> t < 100 \<Longrightarrow> 0 \<le> q \<Longrightarrow> q \<le> 3 \<Longrightarrow>
      (96 \<le> t \<longleftrightarrow>
         (96 \<le> r \<and> r \<le> 99) \<or> (196 \<le> r \<and> r \<le> 199) \<or> (296 \<le> r \<and> r \<le> 299) \<or> 396 \<le> r)"
    for q t :: int
    by arith
  have "0 \<le> r div 100"
    using assms by (simp add: pos_imp_zdiv_nonneg_iff)
  moreover have "r div 100 \<le> 399 div 100"
    using assms by (intro zdiv_mono1) simp_all
  then have "r div 100 \<le> 3" by simp
  ultimately show ?thesis
    by (intro lin [of "r div 100" "r mod 100"]) simp_all
qed

lemma sint_days_per_4years:
  assumes "sint y < 2147483647"
  shows "sint (days_per_4years y m) =
           1461 - (if 96 \<le> civil_year (sint y) (sint m) mod 100 then 1 else 0)
             + (if 396 \<le> civil_year (sint y) (sint m) mod 400 then 1 else 0)"
proof -
  define E where "E = civil_year (sint y) (sint m)"
  have i: "sint (year_index y m) = (E + 1) mod 400"
    by (simp add: sint_year_index sint_year_shift [OF assms] E_def)
  have b: "0 \<le> E mod 400" "E mod 400 < 400" by simp_all
  define j where "j = nat ((E + 1) mod 400)"
  have r: "j < 400" by (simp add: j_def)
  have j: "j = (if E mod 400 = 399 then 0 else nat (E mod 400) + 1)"
    unfolding j_def mod_400_succ using b by (simp add: nat_add_distrib)
  have c: "96 \<le> E mod 100 \<longleftrightarrow>
           (96 \<le> E mod 400 \<and> E mod 400 \<le> 99) \<or> (196 \<le> E mod 400 \<and> E mod 400 \<le> 199) \<or>
           (296 \<le> E mod 400 \<and> E mod 400 \<le> 299) \<or> 396 \<le> E mod 400"
    using mod_400_by_100 [OF b] by (simp add: mod_100_of_400)
  have "sint (k_days_per_4years ! j) =
      1 - (if 96 \<le> E mod 100 then 1 else 0) + (if 396 \<le> E mod 400 then 1 else 0)"
    unfolding k_days_per_4years_nth [OF r] c using b by (auto simp: j)
  then have "sint (k_days_per_4years ! nat (sint (year_index y m))) =
      1 - (if 96 \<le> E mod 100 then 1 else 0) + (if 396 \<le> E mod 400 then 1 else 0)"
    by (simp add: i j_def)
  moreover have "days_per_4years y m = 1460 \<or> days_per_4years y m = 1461"
    by (rule days_per_4years_cases)
  ultimately show ?thesis
    unfolding days_per_4years_def E_def [symmetric]
    using k_days_per_4years_nth [of "nat (sint (year_index y m))"] year_index_range [of y m]
    by (auto split: if_splits)
qed

lemma sint_days_per_year:
  assumes "sint y < 2147483647"
  shows "sint (days_per_year y m) =
           365 + (if leap_year (civil_year (sint y) (sint m) + 1) then 1 else 0)"
  by (simp add: days_per_year_def sint_is_leap_year sint_year_shift [OF assms])

subsection \<open>The loops of the day stage\<close>


lemma dfc_add_day: "days_from_civil Y M (D + k) = days_from_civil Y M D + k"
  using dfc_day [of Y M "D + k"] dfc_day [of Y M D] by simp

lemma dfc_sub_day: "days_from_civil Y M (D - k) = days_from_civil Y M D - k"
  using dfc_day [of Y M "D - k"] dfc_day [of Y M D] by simp

lemma dfc_century_step:
  assumes "N = 36524 + (if 300 \<le> civil_year Y M mod 400 then 1 else 0)"
  shows "days_from_civil (Y + 100) M (D - N) = days_from_civil Y M D"
proof -
  have "days_from_civil (Y + 100) M (D - N) = days_from_civil Y M (D - N) + N"
    unfolding assms dfc_century by simp
  then show ?thesis by (simp add: dfc_sub_day)
qed

lemma dfc_4years_step:
  assumes "N = 1461 - (if 96 \<le> civil_year Y M mod 100 then 1 else 0)
             + (if 396 \<le> civil_year Y M mod 400 then 1 else 0)"
  shows "days_from_civil (Y + 4) M (D - N) = days_from_civil Y M D"
proof -
  have "days_from_civil (Y + 4) M (D - N) = days_from_civil Y M (D - N) + N"
    unfolding assms dfc_4years by simp
  then show ?thesis by (simp add: dfc_sub_day)
qed

lemma dfc_year_step:
  assumes "N = 365 + (if leap_year (civil_year Y M + 1) then 1 else 0)"
  shows "days_from_civil (Y + 1) M (D - N) = days_from_civil Y M D"
proof -
  have "days_from_civil (Y + 1) M (D - N) = days_from_civil Y M (D - N) + N"
    unfolding assms dfc_year by simp
  then show ?thesis by (simp add: dfc_sub_day)
qed

lemma dfc_month_step:
  assumes "1 \<le> M" "M < 12"
  shows "days_from_civil Y (M + 1) (D - days_in_month Y M) = days_from_civil Y M D"
  using dfc_next_month [OF assms, of Y] dfc_day [of Y "M + 1" "D - days_in_month Y M"]
    dfc_day [of Y M D]
  by simp

lemma dfc_december_step:
  "days_from_civil (Y + 1) 1 (D - 31) = days_from_civil Y 12 D"
  using dfc_next_january [of Y] dfc_day [of "Y + 1" 1 "D - 31"] dfc_day [of Y 12 D]
  by simp

lemma loop_sub:
  assumes "n <s d" and "0 < sint n"
  shows "sint (d - n :: int32) = sint d - sint n" and "0 < sint (d - n)"
proof -
  have lt: "sint n < sint d" using assms(1) by (simp add: word_sless_alt)
  show "sint (d - n) = sint d - sint n"
    using lt assms(2) sint_bounds32 [of d] by (intro sint_sub32) linarith+
  then show "0 < sint (d - n)" using lt by simp
qed

lemma century_loop_pos:
  assumes "0 < sint d"
  shows "0 < sint (snd (century_loop y m d))"
  using assms
proof (induction y m d rule: century_loop.induct)
  case (1 y m d)
  define n where "n = days_per_century y m"
  show ?case
  proof (cases "n <s d")
    case True
    have "0 < sint (d - n)"
      using loop_sub(2) [OF True] days_per_century_pos [of y m] by (simp add: n_def)
    then have "0 < sint (snd (century_loop (y + 100) m (d - n)))"
      using "1.IH" [OF n_def True] by simp
    then show ?thesis
      using True by (subst century_loop.simps) (simp add: n_def [symmetric])
  next
    case False
    then show ?thesis
      using "1.prems" by (subst century_loop.simps) (simp add: n_def [symmetric])
  qed
qed

lemma century_loop_exact:
  assumes "0 < sint d" and "sint y + sint d \<le> 2147483647"
  shows "case century_loop y m d of (y', d') \<Rightarrow>
           0 < sint d' \<and> sint d' \<le> sint (days_per_century y' m) \<and>
           sint y \<le> sint y' \<and> sint y' + sint d' \<le> sint y + sint d \<and>
           days_from_civil (sint y') (sint m) (sint d') =
             days_from_civil (sint y) (sint m) (sint d)"
  using assms
proof (induction y m d rule: century_loop.induct)
  case (1 y m d)
  define n where "n = days_per_century y m"
  have ylt: "sint y < 2147483647" using "1.prems" by linarith
  have n: "sint n = 36524 + (if 300 \<le> civil_year (sint y) (sint m) mod 400 then 1 else 0)"
    unfolding n_def by (rule sint_days_per_century [OF ylt])
  have npos: "0 < sint n" using n by simp
  show ?case
  proof (cases "n <s d")
    case True
    note s = loop_sub [OF True npos]
    have lt: "sint n < sint d" using True by (simp add: word_sless_alt)
    have y2: "sint (y + 100) = sint y + 100"
      using "1.prems" lt n sint_bounds32 [of y] by (intro sint_add32 [of y 100, simplified]) (auto split: if_splits)
    have pot: "sint (y + 100) + sint (d - n) \<le> 2147483647"
      unfolding y2 s(1) using "1.prems" n by (auto split: if_splits)
    obtain y' d' where r: "century_loop (y + 100) m (d - n) = (y', d')"
      by (cases "century_loop (y + 100) m (d - n)")
    note ih = "1.IH" [OF n_def True s(2) pot, unfolded r, simplified]
    have unfold: "century_loop y m d = (y', d')"
      using True r by (subst century_loop.simps) (simp add: n_def [symmetric])
    have "days_from_civil (sint y + 100) (sint m) (sint d - sint n) =
        days_from_civil (sint y) (sint m) (sint d)"
      by (rule dfc_century_step [OF n])
    moreover have "36524 \<le> sint n" using n by simp
    ultimately show ?thesis
      unfolding unfold using ih by (simp add: y2 s(1))
  next
    case False
    have unfold: "century_loop y m d = (y, d)"
      using False by (subst century_loop.simps) (simp add: n_def [symmetric])
    show ?thesis
      unfolding unfold using False "1.prems" by (simp add: n_def word_sless_alt)
  qed
qed

lemma four_year_loop_pos:
  assumes "0 < sint d"
  shows "0 < sint (snd (four_year_loop y m d))"
  using assms
proof (induction y m d rule: four_year_loop.induct)
  case (1 y m d)
  define n where "n = days_per_4years y m"
  show ?case
  proof (cases "n <s d")
    case True
    have "0 < sint (d - n)"
      using loop_sub(2) [OF True] days_per_4years_pos [of y m] by (simp add: n_def)
    then have "0 < sint (snd (four_year_loop (y + 4) m (d - n)))"
      using "1.IH" [OF n_def True] by simp
    then show ?thesis
      using True by (subst four_year_loop.simps) (simp add: n_def [symmetric])
  next
    case False
    then show ?thesis
      using "1.prems" by (subst four_year_loop.simps) (simp add: n_def [symmetric])
  qed
qed

lemma four_year_loop_exact:
  assumes "0 < sint d" and "sint y + sint d \<le> 2147483647"
  shows "case four_year_loop y m d of (y', d') \<Rightarrow>
           0 < sint d' \<and> sint d' \<le> sint (days_per_4years y' m) \<and>
           sint y \<le> sint y' \<and> sint y' + sint d' \<le> sint y + sint d \<and>
           days_from_civil (sint y') (sint m) (sint d') =
             days_from_civil (sint y) (sint m) (sint d)"
  using assms
proof (induction y m d rule: four_year_loop.induct)
  case (1 y m d)
  define n where "n = days_per_4years y m"
  have ylt: "sint y < 2147483647" using "1.prems" by linarith
  have n: "sint n = 1461 - (if 96 \<le> civil_year (sint y) (sint m) mod 100 then 1 else 0)
             + (if 396 \<le> civil_year (sint y) (sint m) mod 400 then 1 else 0)"
    unfolding n_def by (rule sint_days_per_4years [OF ylt])
  have npos: "0 < sint n" using n by simp
  show ?case
  proof (cases "n <s d")
    case True
    note s = loop_sub [OF True npos]
    have lt: "sint n < sint d" using True by (simp add: word_sless_alt)
    have y2: "sint (y + 4) = sint y + 4"
      using "1.prems" lt n sint_bounds32 [of y] by (intro sint_add32 [of y 4, simplified]) (auto split: if_splits)
    have pot: "sint (y + 4) + sint (d - n) \<le> 2147483647"
      unfolding y2 s(1) using "1.prems" n by (auto split: if_splits)
    obtain y' d' where r: "four_year_loop (y + 4) m (d - n) = (y', d')"
      by (cases "four_year_loop (y + 4) m (d - n)")
    note ih = "1.IH" [OF n_def True s(2) pot, unfolded r, simplified]
    have unfold: "four_year_loop y m d = (y', d')"
      using True r by (subst four_year_loop.simps) (simp add: n_def [symmetric])
    have "days_from_civil (sint y + 4) (sint m) (sint d - sint n) =
        days_from_civil (sint y) (sint m) (sint d)"
      by (rule dfc_4years_step [OF n])
    moreover have "1460 \<le> sint n" using n by simp
    ultimately show ?thesis
      unfolding unfold using ih by (simp add: y2 s(1))
  next
    case False
    have unfold: "four_year_loop y m d = (y, d)"
      using False by (subst four_year_loop.simps) (simp add: n_def [symmetric])
    show ?thesis
      unfolding unfold using False "1.prems" by (simp add: n_def word_sless_alt)
  qed
qed

lemma year_loop_pos:
  assumes "0 < sint d"
  shows "0 < sint (snd (year_loop y m d))"
  using assms
proof (induction y m d rule: year_loop.induct)
  case (1 y m d)
  define n where "n = days_per_year y m"
  show ?case
  proof (cases "n <s d")
    case True
    have "0 < sint (d - n)"
      using loop_sub(2) [OF True] days_per_year_pos [of y m] by (simp add: n_def)
    then have "0 < sint (snd (year_loop (y + 1) m (d - n)))"
      using "1.IH" [OF n_def True] by simp
    then show ?thesis
      using True by (subst year_loop.simps) (simp add: n_def [symmetric])
  next
    case False
    then show ?thesis
      using "1.prems" by (subst year_loop.simps) (simp add: n_def [symmetric])
  qed
qed

lemma year_loop_exact:
  assumes "0 < sint d" and "sint y + sint d \<le> 2147483647"
  shows "case year_loop y m d of (y', d') \<Rightarrow>
           0 < sint d' \<and> sint d' \<le> sint (days_per_year y' m) \<and>
           sint y \<le> sint y' \<and> sint y' + sint d' \<le> sint y + sint d \<and>
           days_from_civil (sint y') (sint m) (sint d') =
             days_from_civil (sint y) (sint m) (sint d)"
  using assms
proof (induction y m d rule: year_loop.induct)
  case (1 y m d)
  define n where "n = days_per_year y m"
  have ylt: "sint y < 2147483647" using "1.prems" by linarith
  have n: "sint n = 365 + (if leap_year (civil_year (sint y) (sint m) + 1) then 1 else 0)"
    unfolding n_def by (rule sint_days_per_year [OF ylt])
  have npos: "0 < sint n" using n by simp
  show ?case
  proof (cases "n <s d")
    case True
    note s = loop_sub [OF True npos]
    have lt: "sint n < sint d" using True by (simp add: word_sless_alt)
    have y2: "sint (y + 1) = sint y + 1"
      using "1.prems" lt n sint_bounds32 [of y] by (intro sint_add32 [of y 1, simplified]) (auto split: if_splits)
    have pot: "sint (y + 1) + sint (d - n) \<le> 2147483647"
      unfolding y2 s(1) using "1.prems" n by (auto split: if_splits)
    obtain y' d' where r: "year_loop (y + 1) m (d - n) = (y', d')"
      by (cases "year_loop (y + 1) m (d - n)")
    note ih = "1.IH" [OF n_def True s(2) pot, unfolded r, simplified]
    have unfold: "year_loop y m d = (y', d')"
      using True r by (subst year_loop.simps) (simp add: n_def [symmetric])
    have "days_from_civil (sint y + 1) (sint m) (sint d - sint n) =
        days_from_civil (sint y) (sint m) (sint d)"
      by (rule dfc_year_step [OF n])
    moreover have "365 \<le> sint n" using n by simp
    ultimately show ?thesis
      unfolding unfold using ih by (simp add: y2 s(1))
  next
    case False
    have unfold: "year_loop y m d = (y, d)"
      using False by (subst year_loop.simps) (simp add: n_def [symmetric])
    show ?thesis
      unfolding unfold using False "1.prems" by (simp add: n_def word_sless_alt)
  qed
qed


lemma century_loop_id:
  assumes "sint d \<le> 36524"
  shows "century_loop y m d = (y, d)"
proof -
  have "\<not> days_per_century y m <s d"
    using assms days_per_century_cases [of y m] by (auto simp: word_sless_alt)
  then show ?thesis by (subst century_loop.simps) simp
qed

lemma four_year_loop_id:
  assumes "sint d \<le> 1460"
  shows "four_year_loop y m d = (y, d)"
proof -
  have "\<not> days_per_4years y m <s d"
    using assms days_per_4years_cases [of y m] by (auto simp: word_sless_alt)
  then show ?thesis by (subst four_year_loop.simps) simp
qed

lemma year_loop_id:
  assumes "sint d \<le> 365"
  shows "year_loop y m d = (y, d)"
proof -
  have "\<not> days_per_year y m <s d"
    using assms days_per_year_cases [of y m] by (auto simp: word_sless_alt)
  then show ?thesis by (subst year_loop.simps) simp
qed

lemma month_loop_id:
  assumes "1 \<le> sint m" "sint m \<le> 12" "sint d \<le> days_in_month (sint y) (sint m)"
  shows "month_loop y m d = Some (y, m, d)"
proof -
  obtain n where n: "days_per_month y m = Some n" "sint n = days_in_month (sint y) (sint m)"
    using days_per_month_eq [OF assms(1,2)] by blast
  then have "\<not> n <s d" using assms(3) by (simp add: word_sless_alt)
  then show ?thesis using n(1) by (subst month_loop.simps) simp
qed

lemma month_loop_exact:
  assumes "1 \<le> sint m" "sint m \<le> 12" "0 < sint d"
  shows "\<exists>y' m' d'. month_loop y m d = Some (y', m', d') \<and>
           canonical_date (sint y') (sint m') (sint d') \<and>
           (sint y + sint d \<le> 2147483647 \<longrightarrow>
              sint y \<le> sint y' \<and> sint y' + sint d' \<le> sint y + sint d \<and>
              days_from_civil (sint y') (sint m') (sint d') =
                days_from_civil (sint y) (sint m) (sint d))"
  using assms
proof (induction y m d rule: month_loop.induct)
  case (1 y m d)
  obtain n where n: "days_per_month y m = Some n" "sint n = days_in_month (sint y) (sint m)"
    using days_per_month_eq [OF "1.prems"(1,2)] by blast
  have nb: "28 \<le> sint n" "sint n \<le> 31"
    unfolding n(2) by (rule days_in_month_bounds)+
  then have npos: "0 < sint n" by simp
  show ?case
  proof (cases "n <s d")
    case True
    note s = loop_sub [OF True npos]
    have lt: "sint n < sint d" using True by (simp add: word_sless_alt)
    show ?thesis
    proof (cases "m = 12")
      case m12: True
      obtain y' m' d' where r: "month_loop (y + 1) 1 (d - n) = Some (y', m', d')"
        and c: "canonical_date (sint y') (sint m') (sint d')"
        and e: "sint (y + 1) + sint (d - n) \<le> 2147483647 \<longrightarrow>
              sint (y + 1) \<le> sint y' \<and> sint y' + sint d' \<le> sint (y + 1) + sint (d - n) \<and>
              days_from_civil (sint y') (sint m') (sint d') =
                days_from_civil (sint (y + 1)) (sint (1::int32)) (sint (d - n))"
        using "1.IH"(1) [OF n(1) True m12] s(2) by auto
      have unfold: "month_loop y m d = Some (y', m', d')"
        using True m12 r n(1) by (subst month_loop.simps) simp
      have x: "sint y' + sint d' \<le> sint y + sint d \<and> sint y \<le> sint y' \<and>
          days_from_civil (sint y') (sint m') (sint d') =
            days_from_civil (sint y) (sint m) (sint d)"
        if p: "sint y + sint d \<le> 2147483647"
      proof -
        have y2: "sint (y + 1) = sint y + 1"
          using p lt nb sint_bounds32 [of y] by (intro sint_add32 [of y 1, simplified]) linarith+
        have n31: "sint n = 31" using n(2) m12 by (simp add: days_in_month_def)
        have "days_from_civil (sint y + 1) 1 (sint d - 31) = days_from_civil (sint y) 12 (sint d)"
          by (rule dfc_december_step)
        then show ?thesis
          using e p nb unfolding y2 s(1) n31 by (simp add: m12)
      qed
      show ?thesis
        unfolding unfold using c x by simp
    next
      case m12: False
      have "sint m \<noteq> 12"
        using m12 word_eq_iff_signed [where ?'a = int, of m 12] by simp
      then have mlt: "sint m < 12"
        using "1.prems"(2) by simp
      have m2: "sint (m + 1) = sint m + 1"
        using mlt "1.prems"(1) by (intro sint_add32 [of m 1, simplified]) linarith+
      obtain y' m' d' where r: "month_loop y (m + 1) (d - n) = Some (y', m', d')"
        and c: "canonical_date (sint y') (sint m') (sint d')"
        and e: "sint y + sint (d - n) \<le> 2147483647 \<longrightarrow>
              sint y \<le> sint y' \<and> sint y' + sint d' \<le> sint y + sint (d - n) \<and>
              days_from_civil (sint y') (sint m') (sint d') =
                days_from_civil (sint y) (sint (m + 1)) (sint (d - n))"
        using "1.IH"(2) [OF n(1) True m12] s(2) "1.prems"(1) mlt unfolding m2 by auto
      have unfold: "month_loop y m d = Some (y', m', d')"
        using True m12 r n(1) by (subst month_loop.simps) simp
      have "days_from_civil (sint y) (sint m + 1) (sint d - days_in_month (sint y) (sint m)) =
          days_from_civil (sint y) (sint m) (sint d)"
        by (rule dfc_month_step [OF "1.prems"(1) mlt])
      then show ?thesis
        unfolding unfold using c e nb unfolding m2 s(1) n(2) by auto
    qed
  next
    case False
    have unfold: "month_loop y m d = Some (y, m, d)"
      using False n(1) by (subst month_loop.simps) simp
    have "sint d \<le> days_in_month (sint y) (sint m)"
      using False n(2) by (simp add: word_sless_alt)
    then show ?thesis
      unfolding unfold using "1.prems" by (simp add: canonical_date_def)
  qed
qed

subsection \<open>The day stage\<close>

lemma n_day_alt:
  "n_day y m d c hh mm ss =
     (case n_day_carry y d c of (y, d) \<Rightarrow>
      case century_loop y m d of (y, d) \<Rightarrow>
      case four_year_loop y m d of (y, d) \<Rightarrow>
      case year_loop y m d of (y, d) \<Rightarrow>
      case month_loop y m d of
        None \<Rightarrow> None
      | Some (y, m, d) \<Rightarrow>
          Some \<lparr>year = y, month = m, day = d, hour = hh, minute = mm, second = ss\<rparr>)"
  by (simp add: n_day_def n_day_carry_def Let_def split: prod.splits if_splits)

lemma sint_fix_floor:
  fixes c :: int32
  assumes k: "0 < K" "K < 1073741824" and kw: "sint (kw::int32) = K"
  shows "sint (if c_mod c kw <s 0 then c_mod c kw + kw else c_mod c kw) = sint c mod K"
    and "(if c_mod c kw <s 0 then c_div c kw - 1 else c_div c kw) = word_of_int (sint c div K)"
proof -
  have kp: "0 < sint kw" using k kw by simp
  have r: "sint (c_mod c kw) = sint c smod K" using sint_c_mod [OF kp] kw by simp
  have b: "- K < sint c smod K" "sint c smod K < K" using smod_bounds [OF k(1)] by auto
  show "sint (if c_mod c kw <s 0 then c_mod c kw + kw else c_mod c kw) = sint c mod K"
  proof (cases "sint c smod K < 0")
    case True
    have "sint (c_mod c kw + kw) = sint c smod K + K"
      using b k r kw by (subst sint_add32) simp_all
    then show ?thesis
      using True sdiv_smod_floor(1) [OF k(1) True] by (simp add: word_sless_alt r)
  next
    case False
    then show ?thesis
      using sdiv_smod_floor(2) [OF k(1), of "sint c"] by (simp add: word_sless_alt r)
  qed
  show "(if c_mod c kw <s 0 then c_div c kw - 1 else c_div c kw) = word_of_int (sint c div K)"
  proof (cases "sint c smod K < 0")
    case True
    then show ?thesis
      using sdiv_smod_floor(1) [OF k(1) True] by (simp add: word_sless_alt r c_div_def kw)
  next
    case False
    then show ?thesis
      using sdiv_smod_floor(2) [OF k(1), of "sint c"] by (simp add: word_sless_alt r c_div_def kw)
  qed
qed

lemma n_day_carry_spec:
  "\<exists>y3 d3 k. n_day_carry y d c = (y3, d3) \<and> y3 = y + word_of_int (400 * k) \<and>
      0 < sint d3 \<and> sint d3 < 292194 \<and> 146097 * k + sint d3 = sint c + sint d"
proof -
  define C D where "C = sint c" and "D = sint d"
  define c2 where "c2 = (if c_mod c 146097 <s 0 then c_mod c 146097 + 146097 else c_mod c 146097)"
  define q1 where "q1 = (if c_mod c 146097 <s 0 then c_div c 146097 - 1 else c_div c 146097)"
  have c2: "sint c2 = C mod 146097"
    unfolding c2_def C_def by (rule sint_fix_floor(1) [of 146097]) simp_all
  have q1: "q1 = word_of_int (C div 146097)"
    unfolding q1_def C_def by (rule sint_fix_floor(2) [of 146097]) simp_all
  have cb: "0 \<le> C mod 146097" "C mod 146097 < 146097" by simp_all
  define u where "u = D smod 146097"
  have ub: "- 146097 < u" "u < 146097"
    unfolding u_def using smod_bounds [of 146097 D] by simp_all
  have du: "sint (c_mod d 146097) = u"
    by (simp add: sint_c_mod u_def D_def)
  define d1 where "d1 = c_mod d 146097 + c2"
  have d1: "sint d1 = u + C mod 146097"
    unfolding d1_def using ub cb by (subst sint_add32) (simp_all add: du c2)
  define d3 where "d3 = (if d1 \<le>s 0 then d1 + 146097 else d1)"
  define k where "k = C div 146097 + D sdiv 146097 - (if d1 \<le>s 0 then 1 else 0)"
  define y3 where "y3 = y + word_of_int (400 * k)"
  have d3: "sint d3 = u + C mod 146097 + (if d1 \<le>s 0 then 146097 else 0)"
    unfolding d3_def using ub cb d1 by (auto simp: sint_add32)
  have le: "d1 \<le>s 0 \<longleftrightarrow> u + C mod 146097 \<le> 0"
    by (simp add: word_sle_eq d1)
  have r: "n_day_carry y d c = (y3, d3)"
    unfolding n_day_carry_def y3_def d3_def k_def d1_def c2_def
    by (simp add: Let_def c_div_def C_def D_def q1 [unfolded q1_def C_def, symmetric] algebra_simps
          split: if_splits)
  have Deq: "D = 146097 * (D sdiv 146097) + u"
    unfolding u_def using sdiv_mult_smod_eq [of D 146097] by simp
  have Ceq: "C = 146097 * (C div 146097) + C mod 146097"
    by simp
  have sum: "146097 * k + sint d3 = C + D"
    unfolding d3 k_def using Deq Ceq by (simp add: algebra_simps)
  have "0 < sint d3" "sint d3 < 292194"
    unfolding d3 using le ub cb by (auto split: if_splits)
  then show ?thesis
    using r sum unfolding y3_def C_def D_def by blast
qed


lemma year_of_ordinal_bound:
  assumes m: "1 \<le> M" "M \<le> 12"
    and n: "- 784100000000 \<le> days_from_civil Y M 1" "days_from_civil Y M 1 \<le> 784100000000"
  shows "- 2147000000 \<le> Y" "Y \<le> 2147000000"
proof -
  note b = days_from_civil_bounds [OF m, of Y]
  show "- 2147000000 \<le> Y"
  proof (rule ccontr)
    assume "\<not> - 2147000000 \<le> Y"
    then have "146097 * Y \<le> 146097 * (- 2147000001)" by simp
    then show False using b(2) n(1) by simp
  qed
  show "Y \<le> 2147000000"
  proof (rule ccontr)
    assume "\<not> Y \<le> 2147000000"
    then have "146097 * 2147000001 \<le> 146097 * Y" by simp
    then show False using b(1) n(2) by simp
  qed
qed

lemma n_day_canonical:
  assumes "1 \<le> sint m" "sint m \<le> 12"
  shows "\<exists>y' m' d'. n_day y m d c hh mm ss =
            Some \<lparr>year = y', month = m', day = d', hour = hh, minute = mm, second = ss\<rparr> \<and>
          canonical_date (sint y') (sint m') (sint d')"
proof -
  obtain y3 d3 where a: "n_day_carry y d c = (y3, d3)" and p3: "0 < sint d3"
    using n_day_carry_spec [of y d c] by blast
  obtain ya da where b: "century_loop y3 m d3 = (ya, da)"
    by (cases "century_loop y3 m d3")
  have pa: "0 < sint da" using century_loop_pos [OF p3, of y3 m] b by simp
  obtain yb db where c: "four_year_loop ya m da = (yb, db)"
    by (cases "four_year_loop ya m da")
  have pb: "0 < sint db" using four_year_loop_pos [OF pa, of ya m] c by simp
  obtain yc dc where d: "year_loop yb m db = (yc, dc)"
    by (cases "year_loop yb m db")
  have pc: "0 < sint dc" using year_loop_pos [OF pb, of yb m] d by simp
  obtain y' m' d' where e: "month_loop yc m dc = Some (y', m', d')"
    and f: "canonical_date (sint y') (sint m') (sint d')"
    using month_loop_exact [OF assms pc, of yc] by blast
  show ?thesis
    using f by (simp add: n_day_alt a b c d e)
qed

lemma n_day_exact:
  assumes m: "1 \<le> sint m" "sint m \<le> 12"
    and safe: "safe_day (days_from_civil (sint y) (sint m) (sint d) + sint c)"
  shows "\<exists>y' m' d'. n_day y m d c hh mm ss =
            Some \<lparr>year = y', month = m', day = d', hour = hh, minute = mm, second = ss\<rparr> \<and>
          canonical_date (sint y') (sint m') (sint d') \<and>
          days_from_civil (sint y') (sint m') (sint d') =
            days_from_civil (sint y) (sint m) (sint d) + sint c"
proof -
  define N where "N = days_from_civil (sint y) (sint m) (sint d) + sint c"
  have N: "- 779800000000 \<le> N" "N \<le> 779800000000"
    using safe by (simp_all add: safe_day_def N_def)
  obtain y3 d3 k where a: "n_day_carry y d c = (y3, d3)"
    and y3: "y3 = y + word_of_int (400 * k)"
    and d3: "0 < sint d3" "sint d3 < 292194"
    and sum: "146097 * k + sint d3 = sint c + sint d"
    using n_day_carry_spec [of y d c] by blast
  define Y3 where "Y3 = sint y + 400 * k"
  have "days_from_civil Y3 (sint m) (sint d3) =
      days_from_civil (sint y) (sint m) (sint d3) + 146097 * k"
    unfolding Y3_def by (rule dfc_400)
  also have "\<dots> = days_from_civil (sint y) (sint m) 1 + (sint c + sint d) - 1"
    using dfc_day [of "sint y" "sint m" "sint d3"] sum by simp
  also have "\<dots> = N"
    unfolding N_def using dfc_day [of "sint y" "sint m" "sint d"] by simp
  finally have ord3: "days_from_civil Y3 (sint m) (sint d3) = N" .
  then have "days_from_civil Y3 (sint m) 1 = N - sint d3 + 1"
    using dfc_day [of Y3 "sint m" "sint d3"] by simp
  then have "- 784100000000 \<le> days_from_civil Y3 (sint m) 1"
    "days_from_civil Y3 (sint m) 1 \<le> 784100000000"
    using N d3 by simp_all
  from year_of_ordinal_bound [OF m this]
  have Yb: "- 2147000000 \<le> Y3" "Y3 \<le> 2147000000" .
  have "y3 = word_of_int Y3"
    unfolding y3 Y3_def by simp
  then have sy3: "sint y3 = Y3"
    using Yb by (simp add: sint_of_int_eq32)
  have pot3: "sint y3 + sint d3 \<le> 2147483647"
    using Yb d3 sy3 by simp
  obtain ya da where b: "century_loop y3 m d3 = (ya, da)"
    by (cases "century_loop y3 m d3")
  note ea = century_loop_exact [OF d3(1) pot3, of m, unfolded b, simplified]
  have pa: "0 < sint da" "sint ya + sint da \<le> 2147483647"
    using ea pot3 by simp_all
  obtain yb db where c: "four_year_loop ya m da = (yb, db)"
    by (cases "four_year_loop ya m da")
  note eb = four_year_loop_exact [OF pa, of m, unfolded c, simplified]
  have pb: "0 < sint db" "sint yb + sint db \<le> 2147483647"
    using eb pa by simp_all
  obtain yc dc where d: "year_loop yb m db = (yc, dc)"
    by (cases "year_loop yb m db")
  note ec = year_loop_exact [OF pb, of m, unfolded d, simplified]
  have pc: "0 < sint dc" "sint yc + sint dc \<le> 2147483647"
    using ec pb by simp_all
  obtain y' m' d' where e: "month_loop yc m dc = Some (y', m', d')"
    and f: "canonical_date (sint y') (sint m') (sint d')"
    and g: "days_from_civil (sint y') (sint m') (sint d') =
              days_from_civil (sint yc) (sint m) (sint dc)"
    using month_loop_exact [OF m pc(1), of yc] pc(2) by blast
  have "days_from_civil (sint y') (sint m') (sint d') = N"
    using g ec eb ea ord3 sy3 by simp
  then show ?thesis
    using f by (simp add: n_day_alt a b c d e N_def)
qed

lemma n_day_id:
  assumes "canonical_date (sint y) (sint m) (sint d)"
  shows "n_day y m d 0 hh mm ss =
           Some \<lparr>year = y, month = m, day = d, hour = hh, minute = mm, second = ss\<rparr>"
proof -
  have m: "1 \<le> sint m" "sint m \<le> 12" and d: "1 \<le> sint d" "sint d \<le> days_in_month (sint y) (sint m)"
    using assms by (simp_all add: canonical_date_def)
  have d31: "sint d \<le> 31" using d(2) days_in_month_bounds(2) [of "sint y" "sint m"] by simp
  have "sint d sdiv 146097 = 0" "sint d smod 146097 = sint d"
    using d(1) d31 by (simp_all add: sdiv_pos smod_pos)
  then have "c_div d 146097 = 0" "c_mod d 146097 = d"
    by (simp_all add: c_div_def c_mod_def)
  moreover have "c_div 0 146097 = 0" "c_mod 0 146097 = 0"
    by (simp_all add: c_div_def c_mod_def)
  moreover have "\<not> d \<le>s 0" using d(1) by (simp add: word_sle_eq)
  ultimately have a: "n_day_carry y d 0 = (y, d)"
    by (simp add: n_day_carry_def)
  show ?thesis
    using d31 by (simp add: n_day_alt a century_loop_id four_year_loop_id year_loop_id
          month_loop_id [OF m d(2)])
qed

subsection \<open>The month stage\<close>

lemma month_floor:
  fixes M :: int
  shows "(if M smod 12 \<le> 0 then M sdiv 12 - 1 else M sdiv 12) = (M - 1) div 12"
    and "(if M smod 12 \<le> 0 then M smod 12 + 12 else M smod 12) = (M - 1) mod 12 + 1"
proof -
  define a b where "a = (M - 1) div 12" and "b = (M - 1) mod 12"
  have b: "0 \<le> b" "b < 12" by (simp_all add: b_def)
  have dm: "M div 12 = a + (if 12 \<le> b + 1 then 1 else 0)"
    "M mod 12 = (if 12 \<le> b + 1 then b + 1 - 12 else b + 1)"
    using div_add_small [of 12 1 "M - 1"] by (simp_all add: a_def b_def)
  have r: "(if M smod 12 \<le> 0 then M sdiv 12 - 1 else M sdiv 12) = a \<and>
      (if M smod 12 \<le> 0 then M smod 12 + 12 else M smod 12) = b + 1"
  proof (cases "M smod 12 < 0")
    case True
    then have "M sdiv 12 = M div 12 + 1" "M smod 12 = M mod 12 - 12"
      using sdiv_smod_floor(1) [of 12 M] by simp_all
    moreover have "M mod 12 \<noteq> 0"
      using True smod_eq_0_iff [of 12 M] by auto
    ultimately show ?thesis
      using True dm b by (auto split: if_splits)
  next
    case False
    then have "M sdiv 12 = M div 12" "M smod 12 = M mod 12"
      using sdiv_smod_floor(2) [of 12 M] by simp_all
    then show ?thesis
      using dm b by (auto split: if_splits)
  qed
  show "(if M smod 12 \<le> 0 then M sdiv 12 - 1 else M sdiv 12) = (M - 1) div 12"
    using r by (simp add: a_def)
  show "(if M smod 12 \<le> 0 then M smod 12 + 12 else M smod 12) = (M - 1) mod 12 + 1"
    using r by (simp add: b_def)
qed

lemma n_mon_alt:
  "n_mon y m d cd hh mm ss =
     n_day (y + word_of_int ((sint m - 1) div 12)) (word_of_int ((sint m - 1) mod 12 + 1))
       d cd hh mm ss"
proof -
  define M where "M = sint m"
  have r: "sint (c_mod m 12) = M smod 12"
    by (simp add: sint_c_mod M_def)
  have le: "c_mod m 12 \<le>s 0 \<longleftrightarrow> M smod 12 \<le> 0"
    by (simp add: word_sle_eq r)
  have y: "(if c_mod m 12 \<le>s 0 then y + c_div m 12 - 1 else y + c_div m 12) =
      y + word_of_int ((M - 1) div 12)"
    unfolding month_floor(1) [of M, symmetric] le by (simp add: c_div_def M_def)
  have mo: "(if c_mod m 12 \<le>s 0 then c_mod m 12 + 12 else c_mod m 12) =
      word_of_int ((M - 1) mod 12 + 1)"
    unfolding month_floor(2) [of M, symmetric] le by (simp add: c_mod_def M_def)
  have "n_mon y m d cd hh mm ss =
      n_day (if c_mod m 12 \<le>s 0 then y + c_div m 12 - 1 else y + c_div m 12)
        (if c_mod m 12 \<le>s 0 then c_mod m 12 + 12 else c_mod m 12) d cd hh mm ss"
    by (simp add: n_mon_def Let_def)
  then show ?thesis
    unfolding y mo M_def .
qed

lemma sint_month_word:
  "sint (word_of_int ((M - 1) mod 12 + 1) :: int32) = (M - 1) mod 12 + 1"
proof -
  have "0 \<le> (M - 1) mod 12" "(M - 1) mod 12 < 12" by simp_all
  then show ?thesis by (intro sint_of_int_eq32) linarith+
qed

lemma n_mon_canonical:
  "\<exists>y' m' d'. n_mon y m d c hh mm ss =
      Some \<lparr>year = y', month = m', day = d', hour = hh, minute = mm, second = ss\<rparr> \<and>
    canonical_date (sint y') (sint m') (sint d')"
proof -
  have "0 \<le> (sint m - 1) mod 12" "(sint m - 1) mod 12 < 12" by simp_all
  then have "1 \<le> sint (word_of_int ((sint m - 1) mod 12 + 1) :: int32)"
    "sint (word_of_int ((sint m - 1) mod 12 + 1) :: int32) \<le> 12"
    unfolding sint_month_word by linarith+
  then show ?thesis
    unfolding n_mon_alt by (rule n_day_canonical)
qed

lemma n_mon_exact:
  assumes safe: "safe_day (days_from_fields (sint y) (sint m) (sint d) + sint c)"
  shows "\<exists>y' m' d'. n_mon y m d c hh mm ss =
            Some \<lparr>year = y', month = m', day = d', hour = hh, minute = mm, second = ss\<rparr> \<and>
          canonical_date (sint y') (sint m') (sint d') \<and>
          days_from_civil (sint y') (sint m') (sint d') =
            days_from_fields (sint y) (sint m) (sint d) + sint c"
proof -
  define Q M' where "Q = (sint m - 1) div 12" and "M' = (sint m - 1) mod 12 + 1"
  define N where "N = days_from_civil (sint y + Q) M' (sint d) + sint c"
  have N: "- 779800000000 \<le> N" "N \<le> 779800000000"
    using safe by (simp_all add: safe_day_def N_def days_from_fields_def Q_def M'_def)
  have m: "1 \<le> M'" "M' \<le> 12"
    by (simp_all add: M'_def)
  have "days_from_civil (sint y + Q) M' 1 = N - sint c - sint d + 1"
    unfolding N_def using dfc_day [of "sint y + Q" M' "sint d"] by simp
  then have "- 784100000000 \<le> days_from_civil (sint y + Q) M' 1"
    "days_from_civil (sint y + Q) M' 1 \<le> 784100000000"
    using N sint_bounds32 [of c] sint_bounds32 [of d] by simp_all
  from year_of_ordinal_bound [OF m this]
  have Yb: "- 2147000000 \<le> sint y + Q" "sint y + Q \<le> 2147000000" .
  have "y + word_of_int Q = word_of_int (sint y + Q)" by simp
  then have sy: "sint (y + word_of_int Q) = sint y + Q"
    using Yb by (simp only: sint_of_int_eq32)
  have sm: "sint (word_of_int M' :: int32) = M'"
    unfolding M'_def by (rule sint_month_word)
  have "safe_day (days_from_civil (sint (y + word_of_int Q)) (sint (word_of_int M' :: int32)) (sint d) + sint c)"
    unfolding sy sm using safe by (simp add: days_from_fields_def Q_def M'_def)
  from n_day_exact [OF _ _ this, of hh mm ss] m
  show ?thesis
    unfolding n_mon_alt Q_def [symmetric] M'_def [symmetric] sy sm days_from_fields_def
    by simp
qed

subsection \<open>The hour, minute and second stages\<close>

lemma word_fix_floor:
  fixes c :: int32
  assumes "0 < K" "K < 1073741824" "sint (kw::int32) = K"
  shows "(if c_mod c kw <s 0 then c_mod c kw + kw else c_mod c kw) = word_of_int (sint c mod K)"
  using sint_fix_floor(1) [OF assms, of c, symmetric] by simp

lemma sint_small_word:
  assumes "0 \<le> k" "k < 2147483648"
  shows "sint (word_of_int k :: int32) = k"
  using assms by (intro sint_of_int_eq32) linarith+

lemma n_hour_alt:
  "n_hour y m d c hh mm ss =
     n_mon y m d (c + word_of_int (sint hh div 24)) (word_of_int (sint hh mod 24)) mm ss"
proof -
  have a: "(if c_mod hh 24 <s 0 then c + c_div hh 24 - 1 else c + c_div hh 24) =
      c + word_of_int (sint hh div 24)"
    using sint_fix_floor(2) [of 24 24 hh] by (auto split: if_splits)
  have b: "(if c_mod hh 24 <s 0 then c_mod hh 24 + 24 else c_mod hh 24) =
      word_of_int (sint hh mod 24)"
    by (rule word_fix_floor) simp_all
  have "n_hour y m d c hh mm ss =
      n_mon y m d (if c_mod hh 24 <s 0 then c + c_div hh 24 - 1 else c + c_div hh 24)
        (if c_mod hh 24 <s 0 then c_mod hh 24 + 24 else c_mod hh 24) mm ss"
    by (simp add: n_hour_def Let_def)
  then show ?thesis unfolding a b .
qed

lemma n_min_alt:
  "n_min y m d hh c mm ss =
     n_hour y m d
       (c_div hh 24 + c_div (c + word_of_int (sint mm div 60)) 24)
       (c_mod hh 24 + c_mod (c + word_of_int (sint mm div 60)) 24)
       (word_of_int (sint mm mod 60)) ss"
proof -
  have a: "(if c_mod mm 60 <s 0 then c + c_div mm 60 - 1 else c + c_div mm 60) =
      c + word_of_int (sint mm div 60)"
    using sint_fix_floor(2) [of 60 60 mm] by (auto split: if_splits)
  have b: "(if c_mod mm 60 <s 0 then c_mod mm 60 + 60 else c_mod mm 60) =
      word_of_int (sint mm mod 60)"
    by (rule word_fix_floor) simp_all
  have "n_min y m d hh c mm ss =
      n_hour y m d
        (c_div hh 24 + c_div (if c_mod mm 60 <s 0 then c + c_div mm 60 - 1 else c + c_div mm 60) 24)
        (c_mod hh 24 + c_mod (if c_mod mm 60 <s 0 then c + c_div mm 60 - 1 else c + c_div mm 60) 24)
        (if c_mod mm 60 <s 0 then c_mod mm 60 + 60 else c_mod mm 60) ss"
    by (simp add: n_min_def Let_def)
  then show ?thesis unfolding a b .
qed

lemma n_sec_alt:
  "n_sec y m d hh mm ss =
     n_min y m d hh
       (c_div mm 60 + c_div (word_of_int (sint ss div 60)) 60)
       (c_mod mm 60 + c_mod (word_of_int (sint ss div 60)) 60)
       (word_of_int (sint ss mod 60))"
proof -
  have a: "(if c_mod ss 60 <s 0 then c_div ss 60 - 1 else c_div ss 60) =
      word_of_int (sint ss div 60)"
    by (rule sint_fix_floor(2)) simp_all
  have b: "(if c_mod ss 60 <s 0 then c_mod ss 60 + 60 else c_mod ss 60) =
      word_of_int (sint ss mod 60)"
    by (rule word_fix_floor) simp_all
  have "n_sec y m d hh mm ss =
      n_min y m d hh
        (c_div mm 60 + c_div (if c_mod ss 60 <s 0 then c_div ss 60 - 1 else c_div ss 60) 60)
        (c_mod mm 60 + c_mod (if c_mod ss 60 <s 0 then c_div ss 60 - 1 else c_div ss 60) 60)
        (if c_mod ss 60 <s 0 then c_mod ss 60 + 60 else c_mod ss 60)"
    by (simp add: n_sec_def Let_def)
  then show ?thesis unfolding a b .
qed

lemma sint_mod_word:
  assumes "0 < K" "K < 2147483648"
  shows "sint (word_of_int (a mod K) :: int32) = a mod K"
proof -
  have "0 \<le> a mod K" "a mod K < K" using assms by simp_all
  then show ?thesis using assms by (intro sint_small_word) linarith+
qed

lemma n_sec_canonical:
  "\<exists>f. n_sec y m d hh mm ss = Some f \<and> canonical f"
proof -
  define s1 :: int32 where "s1 = word_of_int (sint ss mod 60)"
  define c1 where "c1 = c_div mm 60 + c_div (word_of_int (sint ss div 60)) 60"
  define m1 where "m1 = c_mod mm 60 + c_mod (word_of_int (sint ss div 60)) 60"
  define m2 :: int32 where "m2 = word_of_int (sint m1 mod 60)"
  define c2 where "c2 = c_div hh 24 + c_div (c1 + word_of_int (sint m1 div 60)) 24"
  define h2 where "h2 = c_mod hh 24 + c_mod (c1 + word_of_int (sint m1 div 60)) 24"
  define h3 :: int32 where "h3 = word_of_int (sint h2 mod 24)"
  define c3 where "c3 = c2 + word_of_int (sint h2 div 24)"
  have 1: "n_sec y m d hh mm ss = n_min y m d hh c1 m1 s1"
    unfolding n_sec_alt c1_def m1_def s1_def ..
  have 2: "n_min y m d hh c1 m1 s1 = n_hour y m d c2 h2 m2 s1"
    unfolding n_min_alt c2_def h2_def m2_def ..
  have 3: "n_hour y m d c2 h2 m2 s1 = n_mon y m d c3 h3 m2 s1"
    unfolding n_hour_alt c3_def h3_def ..
  obtain y' m' d' where 4: "n_mon y m d c3 h3 m2 s1 =
      Some \<lparr>year = y', month = m', day = d', hour = h3, minute = m2, second = s1\<rparr>"
    and c: "canonical_date (sint y') (sint m') (sint d')"
    using n_mon_canonical by blast
  have "0 \<le> sint s1 \<and> sint s1 < 60" "0 \<le> sint m2 \<and> sint m2 < 60" "0 \<le> sint h3 \<and> sint h3 < 24"
    unfolding s1_def m2_def h3_def by (simp_all add: sint_mod_word)
  then show ?thesis
    using c by (simp add: 1 2 3 4 canonical_def)
qed

lemma sint_div_bounds:
  fixes a :: int32
  shows "- 89478486 \<le> sint a div 24" "sint a div 24 \<le> 89478485"
    and "- 35791395 \<le> sint a div 60" "sint a div 60 \<le> 35791394"
proof -
  have lo: "- 2147483648 \<le> sint a" and hi: "sint a \<le> 2147483647"
    using sint_bounds32 [of a] by simp_all
  show "- 89478486 \<le> sint a div 24" using zdiv_mono1 [OF lo, of 24] by simp
  show "sint a div 24 \<le> 89478485" using zdiv_mono1 [OF hi, of 24] by simp
  show "- 35791395 \<le> sint a div 60" using zdiv_mono1 [OF lo, of 60] by simp
  show "sint a div 60 \<le> 35791394" using zdiv_mono1 [OF hi, of 60] by simp
qed

lemma sint_sdiv_bounds:
  fixes a :: int32
  assumes "0 < K"
  shows "- 2147483648 \<le> sint a sdiv K" "sint a sdiv K \<le> 2147483648"
  using sdiv_bounds [OF assms, of "sint a"] sint_bounds32 [of a] by linarith+

lemma n_hour_exact:
  assumes cb: "- 1073741824 \<le> sint c" "sint c \<le> 1073741824"
    and safe: "safe_day (days_from_fields (sint y) (sint m) (sint d) + sint c + sint hh div 24)"
  shows "\<exists>y' m' d' h'. n_hour y m d c hh mm ss =
            Some \<lparr>year = y', month = m', day = d', hour = h', minute = mm, second = ss\<rparr> \<and>
          canonical_date (sint y') (sint m') (sint d') \<and>
          sint h' = sint hh mod 24 \<and>
          days_from_civil (sint y') (sint m') (sint d') =
            days_from_fields (sint y) (sint m) (sint d) + sint c + sint hh div 24"
proof -
  define c' where "c' = c + word_of_int (sint hh div 24)"
  have "c' = word_of_int (sint c + sint hh div 24)"
    by (simp add: c'_def)
  then have c': "sint c' = sint c + sint hh div 24"
    using cb sint_div_bounds(1,2) [of hh] by (simp only:) (rule sint_of_int_eq32; linarith)
  have "safe_day (days_from_fields (sint y) (sint m) (sint d) + sint c')"
    using safe by (simp add: c' add.assoc)
  from n_mon_exact [OF this, of "word_of_int (sint hh mod 24)" mm ss]
  show ?thesis
    unfolding n_hour_alt c'_def [symmetric] c'
    by (auto simp: sint_mod_word add.assoc)
qed

lemma n_hour_canonical:
  "\<exists>y' m' d' h'. n_hour y m d c hh mm ss =
      Some \<lparr>year = y', month = m', day = d', hour = h', minute = mm, second = ss\<rparr> \<and>
    canonical_date (sint y') (sint m') (sint d') \<and> 0 \<le> sint h' \<and> sint h' < 24"
  unfolding n_hour_alt
  using n_mon_canonical [of y m d "c + word_of_int (sint hh div 24)"
      "word_of_int (sint hh mod 24)" mm ss]
  by (auto simp: sint_mod_word)

lemma n_min_canonical:
  "\<exists>y' m' d' h' mi'. n_min y m d hh c mm ss =
      Some \<lparr>year = y', month = m', day = d', hour = h', minute = mi', second = ss\<rparr> \<and>
    canonical_date (sint y') (sint m') (sint d') \<and> 0 \<le> sint h' \<and> sint h' < 24 \<and>
    0 \<le> sint mi' \<and> sint mi' < 60"
  unfolding n_min_alt
  using n_hour_canonical [of y m d
      "c_div hh 24 + c_div (c + word_of_int (sint mm div 60)) 24"
      "c_mod hh 24 + c_mod (c + word_of_int (sint mm div 60)) 24"
      "word_of_int (sint mm mod 60)" ss]
  by (auto simp: sint_mod_word)

lemma sdiv_abs_bound:
  fixes X :: int
  assumes "0 < K" "- B \<le> X" "X \<le> B"
  shows "- (B div K) \<le> X sdiv K" "X sdiv K \<le> B div K"
proof -
  have r: "- (B div K) \<le> X sdiv K \<and> X sdiv K \<le> B div K"
  proof (cases "0 \<le> X")
    case True
    then have "X sdiv K = X div K" using assms(1) by (simp add: sdiv_pos)
    moreover have "X div K \<le> B div K" using assms by (intro zdiv_mono1) simp_all
    moreover have "0 \<le> X div K" using True assms(1) by (simp add: pos_imp_zdiv_nonneg_iff)
    ultimately show ?thesis by linarith
  next
    case False
    then have "X sdiv K = - ((- X) div K)" using assms(1) by (simp add: sdiv_neg)
    moreover have "(- X) div K \<le> B div K" using assms by (intro zdiv_mono1) simp_all
    moreover have "0 \<le> (- X) div K" using False assms(1) by (simp add: pos_imp_zdiv_nonneg_iff)
    ultimately show ?thesis by linarith
  qed
  show "- (B div K) \<le> X sdiv K" "X sdiv K \<le> B div K"
    using r by simp_all
qed

lemma split_carry:
  fixes a b :: int32
  assumes k: "K = 24 \<or> K = 60" and kw: "sint (kw::int32) = K"
    and b: "- 1109533219 \<le> sint b" "sint b \<le> 1109533219"
  shows "K * sint (c_div a kw + c_div b kw) + sint (c_mod a kw + c_mod b kw) = sint a + sint b"
    and "- 1073741824 \<le> sint (c_div a kw + c_div b kw)"
    and "sint (c_div a kw + c_div b kw) \<le> 1073741824"
proof -
  have kp: "0 < K" "0 < sint kw" using k kw by auto
  have qa: "sint (c_div a kw) = sint a sdiv K" and qb: "sint (c_div b kw) = sint b sdiv K"
    and ra: "sint (c_mod a kw) = sint a smod K" and rb: "sint (c_mod b kw) = sint b smod K"
    using sint_c_div [OF kp(2)] sint_c_mod [OF kp(2)] kw by simp_all
  have ab: "- 2147483648 \<le> sint a" "sint a \<le> 2147483648"
    using sint_bounds32 [of a] by simp_all
  have "2147483648 div K \<le> 89478485" "1109533219 div K \<le> 46230550"
    using k by auto
  then have qab: "- 89478485 \<le> sint a sdiv K" "sint a sdiv K \<le> 89478485"
    and qbb: "- 46230550 \<le> sint b sdiv K" "sint b sdiv K \<le> 46230550"
    using sdiv_abs_bound [OF kp(1) ab] sdiv_abs_bound [OF kp(1) b] by linarith+
  have rab: "- K < sint a smod K" "sint a smod K < K"
    and rbb: "- K < sint b smod K" "sint b smod K < K"
    using smod_bounds [OF kp(1)] by simp_all
  have K60: "K \<le> 60" using k by auto
  have q: "sint (c_div a kw + c_div b kw) = sint a sdiv K + sint b sdiv K"
    using qab qbb by (subst sint_add32) (simp_all add: qa qb)
  have r: "sint (c_mod a kw + c_mod b kw) = sint a smod K + sint b smod K"
    using rab rbb K60 by (subst sint_add32) (simp_all add: ra rb)
  show "K * sint (c_div a kw + c_div b kw) + sint (c_mod a kw + c_mod b kw) = sint a + sint b"
    unfolding q r
    using sdiv_mult_smod_eq [of "sint a" K] sdiv_mult_smod_eq [of "sint b" K]
    by (simp add: algebra_simps)
  show "- 1073741824 \<le> sint (c_div a kw + c_div b kw)"
    and "sint (c_div a kw + c_div b kw) \<le> 1073741824"
    unfolding q using qab qbb by linarith+
qed

lemma div_mod_carry:
  fixes q r :: int
  assumes "0 < K"
  shows "(K * q + r) div K = q + r div K" "(K * q + r) mod K = r mod K"
  using assms by simp_all

lemma n_min_exact:
  assumes cb: "- 1073741824 \<le> sint c" "sint c \<le> 1073741824"
    and safe: "safe_day (days_from_fields (sint y) (sint m) (sint d)
                 + (sint hh + sint c + sint mm div 60) div 24)"
  shows "\<exists>y' m' d' h' mi'. n_min y m d hh c mm ss =
            Some \<lparr>year = y', month = m', day = d', hour = h', minute = mi', second = ss\<rparr> \<and>
          canonical_date (sint y') (sint m') (sint d') \<and>
          sint mi' = sint mm mod 60 \<and>
          sint h' = (sint hh + sint c + sint mm div 60) mod 24 \<and>
          days_from_civil (sint y') (sint m') (sint d') =
            days_from_fields (sint y) (sint m) (sint d)
              + (sint hh + sint c + sint mm div 60) div 24"
proof -
  define c' where "c' = c + word_of_int (sint mm div 60)"
  have "c' = word_of_int (sint c + sint mm div 60)"
    by (simp add: c'_def)
  then have c': "sint c' = sint c + sint mm div 60"
    using cb sint_div_bounds(3,4) [of mm] by (simp only:) (rule sint_of_int_eq32; linarith)
  have c'b: "- 1109533219 \<le> sint c'" "sint c' \<le> 1109533219"
    unfolding c' using cb sint_div_bounds(3,4) [of mm] by linarith+
  define cw hw where "cw = c_div hh 24 + c_div c' 24" and "hw = c_mod hh 24 + c_mod c' 24"
  note sc = split_carry [of 24 24 c' hh, OF _ _ c'b, simplified, folded cw_def hw_def]
  define T where "T = sint hh + sint c + sint mm div 60"
  have T: "T = 24 * sint cw + sint hw"
    using sc(1) by (simp add: T_def c')
  have dv: "sint cw + sint hw div 24 = T div 24" and md: "sint hw mod 24 = T mod 24"
    unfolding T using div_mod_carry [of 24 "sint cw" "sint hw"] by simp_all
  have "safe_day (days_from_fields (sint y) (sint m) (sint d) + sint cw + sint hw div 24)"
    using safe dv by (simp add: T_def add.assoc)
  from n_hour_exact [OF sc(2,3) this, of "word_of_int (sint mm mod 60)" ss]
  show ?thesis
    unfolding n_min_alt c'_def [symmetric] cw_def [symmetric] hw_def [symmetric] md
      T_def [symmetric]
    using dv by (auto simp: sint_mod_word add.assoc)
qed

lemma n_sec_exact:
  assumes safe: "safe_day (days_from_fields (sint y) (sint m) (sint d)
                 + (sint hh + (sint mm + sint ss div 60) div 60) div 24)"
  shows "\<exists>f. n_sec y m d hh mm ss = Some f \<and>
          canonical f \<and>
          sint (second f) = sint ss mod 60 \<and>
          sint (minute f) = (sint mm + sint ss div 60) mod 60 \<and>
          sint (hour f) = (sint hh + (sint mm + sint ss div 60) div 60) mod 24 \<and>
          day_ord f = days_from_fields (sint y) (sint m) (sint d)
              + (sint hh + (sint mm + sint ss div 60) div 60) div 24"
proof -
  define c0 :: int32 where "c0 = word_of_int (sint ss div 60)"
  have c0: "sint c0 = sint ss div 60"
    unfolding c0_def using sint_div_bounds(3,4) [of ss] by (intro sint_of_int_eq32) linarith+
  have c0b: "- 1109533219 \<le> sint c0" "sint c0 \<le> 1109533219"
    unfolding c0 using sint_div_bounds(3,4) [of ss] by linarith+
  define cw mw where "cw = c_div mm 60 + c_div c0 60" and "mw = c_mod mm 60 + c_mod c0 60"
  note sc = split_carry [of 60 60 c0 mm, OF _ _ c0b, simplified, folded cw_def mw_def]
  define U where "U = sint mm + sint ss div 60"
  have U: "U = 60 * sint cw + sint mw"
    using sc(1) by (simp add: U_def c0)
  have dv: "sint cw + sint mw div 60 = U div 60" and md: "sint mw mod 60 = U mod 60"
    unfolding U using div_mod_carry [of 60 "sint cw" "sint mw"] by simp_all
  have "safe_day (days_from_fields (sint y) (sint m) (sint d)
      + (sint hh + sint cw + sint mw div 60) div 24)"
    using safe dv by (simp add: U_def add.assoc)
  from n_min_exact [OF sc(2,3) this, of "word_of_int (sint ss mod 60)"]
  obtain y' m' d' h' mi' where r: "n_min y m d hh cw mw (word_of_int (sint ss mod 60)) =
        Some \<lparr>year = y', month = m', day = d', hour = h', minute = mi',
              second = word_of_int (sint ss mod 60)\<rparr>"
    and c: "canonical_date (sint y') (sint m') (sint d')"
    and mi: "sint mi' = sint mw mod 60"
    and h: "sint h' = (sint hh + sint cw + sint mw div 60) mod 24"
    and dd: "days_from_civil (sint y') (sint m') (sint d') =
            days_from_fields (sint y) (sint m) (sint d)
              + (sint hh + sint cw + sint mw div 60) div 24"
    by blast
  have e: "sint hh + sint cw + sint mw div 60 = sint hh + U div 60"
    using dv by simp
  define sw :: int32 where "sw = word_of_int (sint ss mod 60)"
  define f where "f = \<lparr>year = y', month = m', day = d', hour = h', minute = mi', second = sw\<rparr>"
  have sw: "sint sw = sint ss mod 60"
    unfolding sw_def by (simp add: sint_mod_word)
  have f: "n_sec y m d hh mm ss = Some f"
    unfolding n_sec_alt c0_def [symmetric] cw_def [symmetric] mw_def [symmetric] r f_def sw_def ..
  have s1: "sint (second f) = sint ss mod 60"
    by (simp add: f_def sw)
  have s2: "sint (minute f) = (sint mm + sint ss div 60) mod 60"
    using mi md by (simp add: f_def U_def)
  have s3: "sint (hour f) = (sint hh + (sint mm + sint ss div 60) div 60) mod 24"
    using h e by (simp add: f_def U_def)
  have s4: "day_ord f = days_from_fields (sint y) (sint m) (sint d)
              + (sint hh + (sint mm + sint ss div 60) div 60) div 24"
    using dd e by (simp add: f_def U_def day_ord_def)
  have "0 \<le> sint (second f) \<and> sint (second f) < 60"
    unfolding s1 by simp
  moreover have "0 \<le> sint (minute f) \<and> sint (minute f) < 60"
    unfolding s2 by simp
  moreover have "0 \<le> sint (hour f) \<and> sint (hour f) < 24"
    unfolding s3 by simp
  moreover have "canonical_date (sint (year f)) (sint (month f)) (sint (day f))"
    using c by (simp add: f_def)
  ultimately have "canonical f"
    unfolding canonical_def by blast
  then show ?thesis
    using f s1 s2 s3 s4 by blast
qed

subsection \<open>Stepping\<close>

lemma canonical_fields:
  assumes "canonical f"
  shows "1 \<le> sint (month f)" "sint (month f) \<le> 12"
    and "1 \<le> sint (day f)" "sint (day f) \<le> 31"
    and "0 \<le> sint (hour f)" "sint (hour f) < 24"
    and "0 \<le> sint (minute f)" "sint (minute f) < 60"
    and "0 \<le> sint (second f)" "sint (second f) < 60"
    and "canonical_date (sint (year f)) (sint (month f)) (sint (day f))"
  using assms days_in_month_bounds(2) [of "sint (year f)" "sint (month f)"]
  by (simp_all add: canonical_def canonical_date_def)

lemma days_from_fields_canonical:
  assumes "1 \<le> M" "M \<le> 12"
  shows "days_from_fields Y M D = days_from_civil Y M D"
proof -
  have "0 \<le> M - 1" "M - 1 < 12" using assms by simp_all
  then have "(M - 1) div 12 = 0" "(M - 1) mod 12 = M - 1"
    by (simp_all add: div_pos_pos_trivial mod_pos_pos_trivial)
  then show ?thesis by (simp add: days_from_fields_def)
qed

lemma days_from_fields_add_day:
  "days_from_fields Y M (D + k) = days_from_fields Y M D + k"
  by (simp add: days_from_fields_def dfc_add_day)

lemma sdiv_smod_sum: "K * (N sdiv K) + N smod K = (N::int)"
  using sdiv_mult_smod_eq [of N K] by (simp add: mult.commute)

lemma sint_field_plus_sdiv:
  fixes a n :: int32
  assumes "0 \<le> sint a" "sint a \<le> 1000" and "K = 12 \<or> K = 24 \<or> K = 60" and "sint kw = K"
  shows "sint (a + c_div n kw) = sint a + sint n sdiv K"
    and "sint (a + c_mod n kw) = sint a + sint n smod K"
proof -
  have kp: "0 < K" "0 < sint kw" using assms by auto
  have nb: "- 2147483648 \<le> sint n" "sint n \<le> 2147483648"
    using sint_bounds32 [of n] by simp_all
  have "2147483648 div K \<le> 178956970" using assms(3) by auto
  then have q: "- 178956970 \<le> sint n sdiv K" "sint n sdiv K \<le> 178956970"
    using sdiv_abs_bound [OF kp(1) nb] by linarith+
  have r: "- K < sint n smod K" "sint n smod K < K"
    using smod_bounds [OF kp(1)] by simp_all
  have K60: "K \<le> 60" using assms(3) by auto
  show "sint (a + c_div n kw) = sint a + sint n sdiv K"
    using q assms(1,2) by (subst sint_add32) (simp_all add: sint_c_div [OF kp(2)] assms(4))
  show "sint (a + c_mod n kw) = sint a + sint n smod K"
    using r K60 assms(1,2) by (subst sint_add32) (simp_all add: sint_c_mod [OF kp(2)] assms(4))
qed

lemma time_split:
  fixes A h mi s :: int
  defines "U \<equiv> mi + s div 60"
  defines "T \<equiv> h + U div 60"
  shows "(((A * 24 + h) * 60 + mi) * 60 + s) div 60 div 60 div 24 = A + T div 24"
    and "(((A + T div 24) * 24 + T mod 24) * 60 + U mod 60) * 60 + s mod 60 =
          ((A * 24 + h) * 60 + mi) * 60 + s"
proof -
  have 1: "(((A * 24 + h) * 60 + mi) * 60 + s) div 60 = (A * 24 + h) * 60 + U"
    unfolding U_def by simp
  have 2: "((A * 24 + h) * 60 + U) div 60 = A * 24 + T"
    unfolding T_def by simp
  have 3: "(A * 24 + T) div 24 = A + T div 24"
    by simp
  show "(((A * 24 + h) * 60 + mi) * 60 + s) div 60 div 60 div 24 = A + T div 24"
    unfolding 1 2 3 ..
  have t: "T div 24 * 24 + T mod 24 = T" and u: "U div 60 * 60 + U mod 60 = U"
    and s: "s div 60 * 60 + s mod 60 = s"
    by simp_all
  have "(((A + T div 24) * 24 + T mod 24) * 60 + U mod 60) * 60 + s mod 60 =
      ((A * 24 + (T div 24 * 24 + T mod 24)) * 60 + U mod 60) * 60 + s mod 60"
    by (simp only: algebra_simps)
  also have "\<dots> = ((A * 24 + h) * 60 + (U div 60 * 60 + U mod 60)) * 60 + s mod 60"
    unfolding t unfolding T_def by (simp only: algebra_simps)
  also have "\<dots> = ((A * 24 + h) * 60 + mi) * 60 + (s div 60 * 60 + s mod 60)"
    unfolding u unfolding U_def by (simp only: algebra_simps)
  finally show "(((A + T div 24) * 24 + T mod 24) * 60 + U mod 60) * 60 + s mod 60 =
          ((A * 24 + h) * 60 + mi) * 60 + s"
    unfolding s .
qed

lemma step_second_exact:
  assumes c: "canonical f"
    and safe: "safe second_tag (ordinal second_tag f + sint n)"
  shows "\<exists>f'. step second_tag f n = Some f' \<and> canonical f' \<and>
           ordinal second_tag f' = ordinal second_tag f + sint n"
proof -
  note cf = canonical_fields [OF c]
  define A where "A = day_ord f"
  define MM SS where "MM = sint (minute f) + sint n sdiv 60" and "SS = sint (second f) + sint n smod 60"
  have mm: "sint (minute f + c_div n 60) = MM"
    unfolding MM_def using cf by (intro sint_field_plus_sdiv(1)) simp_all
  have ss: "sint (second f + c_mod n 60) = SS"
    unfolding SS_def using cf by (intro sint_field_plus_sdiv(2)) simp_all
  have dff: "days_from_fields (sint (year f)) (sint (month f)) (sint (day f)) = A"
    unfolding A_def day_ord_def by (rule days_from_fields_canonical [OF cf(1,2)])
  have tot: "ordinal second_tag f + sint n = ((A * 24 + sint (hour f)) * 60 + MM) * 60 + SS"
    unfolding MM_def SS_def using sdiv_smod_sum [of 60 "sint n"]
    by (simp add: A_def algebra_simps)
  note ts = time_split [of A "sint (hour f)" MM SS]
  have "safe_day (A + (sint (hour f) + (MM + SS div 60) div 60) div 24)"
    using safe unfolding tot ts(1) [symmetric] by simp
  from n_sec_exact [of "year f" "month f" "day f" "hour f" "minute f + c_div n 60"
      "second f + c_mod n 60", unfolded mm ss dff, OF this]
  obtain f' where r: "n_sec (year f) (month f) (day f) (hour f) (minute f + c_div n 60)
        (second f + c_mod n 60) = Some f'"
    and c': "canonical f'"
    and s: "sint (second f') = SS mod 60"
    and mi: "sint (minute f') = (MM + SS div 60) mod 60"
    and h: "sint (hour f') = (sint (hour f) + (MM + SS div 60) div 60) mod 24"
    and d: "day_ord f' = A + (sint (hour f) + (MM + SS div 60) div 60) div 24"
    by blast
  have "ordinal second_tag f' = ((A * 24 + sint (hour f)) * 60 + MM) * 60 + SS"
    unfolding ordinal.simps s mi h d by (rule ts(2))
  then show ?thesis
    using r c' tot by simp
qed

lemma step_minute_exact:
  assumes c: "canonical f"
    and safe: "safe minute_tag (ordinal minute_tag f + sint n)"
  shows "\<exists>f'. step minute_tag f n = Some f' \<and> canonical f' \<and> second f' = second f \<and>
           ordinal minute_tag f' = ordinal minute_tag f + sint n"
proof -
  note cf = canonical_fields [OF c]
  define A where "A = day_ord f"
  define HH MM where "HH = sint (hour f) + sint n sdiv 60" and "MM = sint (minute f) + sint n smod 60"
  have hh: "sint (hour f + c_div n 60) = HH"
    unfolding HH_def using cf by (intro sint_field_plus_sdiv(1)) simp_all
  have mm: "sint (minute f + c_mod n 60) = MM"
    unfolding MM_def using cf by (intro sint_field_plus_sdiv(2)) simp_all
  have dff: "days_from_fields (sint (year f)) (sint (month f)) (sint (day f)) = A"
    unfolding A_def day_ord_def by (rule days_from_fields_canonical [OF cf(1,2)])
  have tot: "ordinal minute_tag f + sint n = (A * 24 + HH) * 60 + MM"
    unfolding HH_def MM_def using sdiv_smod_sum [of 60 "sint n"]
    by (simp add: A_def algebra_simps)
  define T where "T = HH + MM div 60"
  have d1: "((A * 24 + HH) * 60 + MM) div 60 div 24 = A + T div 24"
    unfolding T_def by simp
  have rec: "((A + T div 24) * 24 + T mod 24) * 60 + MM mod 60 = (A * 24 + HH) * 60 + MM"
  proof -
    have t: "T div 24 * 24 + T mod 24 = T" and u: "MM div 60 * 60 + MM mod 60 = MM"
      by simp_all
    have "((A + T div 24) * 24 + T mod 24) * 60 + MM mod 60 =
        (A * 24 + (T div 24 * 24 + T mod 24)) * 60 + MM mod 60"
      by (simp only: algebra_simps)
    also have "\<dots> = (A * 24 + HH) * 60 + (MM div 60 * 60 + MM mod 60)"
      unfolding t unfolding T_def by (simp only: algebra_simps)
    finally show ?thesis unfolding u .
  qed
  have "safe_day (A + T div 24)"
    using safe unfolding tot safe.simps d1 .
  then have "safe_day (A + (HH + sint (0::int32) + MM div 60) div 24)"
    unfolding T_def by simp
  from n_min_exact [of 0 "year f" "month f" "day f" "hour f + c_div n 60"
      "minute f + c_mod n 60" "second f", unfolded hh mm dff, OF _ _ this]
  obtain y' m' d' h' mi' where r: "n_min (year f) (month f) (day f) (hour f + c_div n 60) 0
        (minute f + c_mod n 60) (second f) =
        Some \<lparr>year = y', month = m', day = d', hour = h', minute = mi', second = second f\<rparr>"
    and cd: "canonical_date (sint y') (sint m') (sint d')"
    and mi: "sint mi' = MM mod 60"
    and h: "sint h' = T mod 24"
    and d: "days_from_civil (sint y') (sint m') (sint d') = A + T div 24"
    unfolding T_def by auto
  define f' where "f' = \<lparr>year = y', month = m', day = d', hour = h', minute = mi', second = second f\<rparr>"
  have "canonical f'"
    using cd cf(9,10) unfolding canonical_def f'_def by (simp add: mi h)
  moreover have "ordinal minute_tag f' = ((A + T div 24) * 24 + T mod 24) * 60 + MM mod 60"
    unfolding f'_def by (simp add: day_ord_def d mi h)
  then have "ordinal minute_tag f' = (A * 24 + HH) * 60 + MM"
    unfolding rec .
  ultimately show ?thesis
    using r tot unfolding f'_def [symmetric] by (simp add: f'_def)
qed

lemma step_hour_exact:
  assumes c: "canonical f"
    and safe: "safe hour_tag (ordinal hour_tag f + sint n)"
  shows "\<exists>f'. step hour_tag f n = Some f' \<and> canonical f' \<and>
           minute f' = minute f \<and> second f' = second f \<and>
           ordinal hour_tag f' = ordinal hour_tag f + sint n"
proof -
  note cf = canonical_fields [OF c]
  define A where "A = day_ord f"
  define DD HH where "DD = sint (day f) + sint n sdiv 24" and "HH = sint (hour f) + sint n smod 24"
  have dd: "sint (day f + c_div n 24) = DD"
    unfolding DD_def using cf by (intro sint_field_plus_sdiv(1)) simp_all
  have hh: "sint (hour f + c_mod n 24) = HH"
    unfolding HH_def using cf by (intro sint_field_plus_sdiv(2)) simp_all
  have dff: "days_from_fields (sint (year f)) (sint (month f)) DD = A + sint n sdiv 24"
    unfolding A_def day_ord_def DD_def days_from_fields_add_day
    by (simp add: days_from_fields_canonical [OF cf(1,2)])
  have tot: "ordinal hour_tag f + sint n = (A + sint n sdiv 24) * 24 + HH"
    unfolding HH_def using sdiv_smod_sum [of 24 "sint n"]
    by (simp add: A_def algebra_simps)
  have d1: "((A + sint n sdiv 24) * 24 + HH) div 24 = A + sint n sdiv 24 + HH div 24"
    by simp
  have rec: "(A + sint n sdiv 24 + HH div 24) * 24 + HH mod 24 = (A + sint n sdiv 24) * 24 + HH"
  proof -
    have t: "HH div 24 * 24 + HH mod 24 = HH" by simp
    have "(A + sint n sdiv 24 + HH div 24) * 24 + HH mod 24 =
        (A + sint n sdiv 24) * 24 + (HH div 24 * 24 + HH mod 24)"
      by (simp only: algebra_simps)
    then show ?thesis unfolding t .
  qed
  have "safe_day (A + sint n sdiv 24 + HH div 24)"
    using safe unfolding tot safe.simps d1 .
  then have "safe_day (A + sint n sdiv 24 + sint (0::int32) + HH div 24)"
    by simp
  from n_hour_exact [of 0 "year f" "month f" "day f + c_div n 24" "hour f + c_mod n 24"
      "minute f" "second f", unfolded dd hh dff, OF _ _ this]
  obtain y' m' d' h' where r: "n_hour (year f) (month f) (day f + c_div n 24) 0
        (hour f + c_mod n 24) (minute f) (second f) =
        Some \<lparr>year = y', month = m', day = d', hour = h', minute = minute f, second = second f\<rparr>"
    and cd: "canonical_date (sint y') (sint m') (sint d')"
    and h: "sint h' = HH mod 24"
    and d: "days_from_civil (sint y') (sint m') (sint d') = A + sint n sdiv 24 + HH div 24"
    by auto
  define f' where "f' = \<lparr>year = y', month = m', day = d', hour = h',
      minute = minute f, second = second f\<rparr>"
  have "canonical f'"
    using cd cf(7,8,9,10) unfolding canonical_def f'_def by (simp add: h)
  moreover have "ordinal hour_tag f' = (A + sint n sdiv 24 + HH div 24) * 24 + HH mod 24"
    unfolding f'_def by (simp add: day_ord_def d h)
  then have "ordinal hour_tag f' = (A + sint n sdiv 24) * 24 + HH"
    unfolding rec .
  ultimately show ?thesis
    using r tot unfolding f'_def [symmetric] by (simp add: f'_def)
qed

lemma step_day_exact:
  assumes c: "canonical f"
    and safe: "safe day_tag (ordinal day_tag f + sint n)"
  shows "\<exists>f'. step day_tag f n = Some f' \<and> canonical f' \<and>
           hour f' = hour f \<and> minute f' = minute f \<and> second f' = second f \<and>
           ordinal day_tag f' = ordinal day_tag f + sint n"
proof -
  note cf = canonical_fields [OF c]
  have "safe_day (days_from_civil (sint (year f)) (sint (month f)) (sint (day f)) + sint n)"
    using safe by (simp add: day_ord_def)
  from n_day_exact [OF cf(1,2) this, of "hour f" "minute f" "second f"]
  obtain y' m' d' where r: "n_day (year f) (month f) (day f) n (hour f) (minute f) (second f) =
        Some \<lparr>year = y', month = m', day = d', hour = hour f, minute = minute f, second = second f\<rparr>"
    and cd: "canonical_date (sint y') (sint m') (sint d')"
    and d: "days_from_civil (sint y') (sint m') (sint d') =
        days_from_civil (sint (year f)) (sint (month f)) (sint (day f)) + sint n"
    by blast
  have "canonical \<lparr>year = y', month = m', day = d', hour = hour f, minute = minute f, second = second f\<rparr>"
    using cd cf unfolding canonical_def by simp
  then show ?thesis
    using r d by (simp add: day_ord_def)
qed

lemma step_month_result:
  assumes c: "canonical f" and d1: "day f = 1"
  shows "step month_tag f n =
     Some \<lparr>year = word_of_int ((ordinal month_tag f + sint n) div 12),
           month = word_of_int ((ordinal month_tag f + sint n) mod 12 + 1),
           day = 1, hour = hour f, minute = minute f, second = second f\<rparr>"
proof -
  note cf = canonical_fields [OF c]
  define Y M N where "Y = sint (year f)" and "M = sint (month f)" and "N = sint n"
  define M2 where "M2 = M + N smod 12"
  have m2: "sint (month f + c_mod n 12) = M2"
    unfolding M2_def M_def N_def using cf by (intro sint_field_plus_sdiv(2)) simp_all
  define K where "K = 12 * Y + (M - 1) + N"
  have K: "K = 12 * (Y + N sdiv 12) + (M2 - 1)"
    unfolding K_def M2_def using sdiv_smod_sum [of 12 N] by (simp add: algebra_simps)
  have kd: "K div 12 = Y + N sdiv 12 + (M2 - 1) div 12" and km: "K mod 12 = (M2 - 1) mod 12"
    unfolding K using div_mod_carry [of 12 "Y + N sdiv 12" "M2 - 1"] by simp_all
  define y' :: int32 where "y' = word_of_int (K div 12)"
  define m' :: int32 where "m' = word_of_int (K mod 12 + 1)"
  have y': "year f + c_div n 12 + word_of_int ((M2 - 1) div 12) = y'"
    unfolding y'_def kd by (simp add: c_div_def Y_def N_def)
  have sm': "sint m' = K mod 12 + 1"
    unfolding m'_def km by (rule sint_month_word)
  have "canonical_date (sint y') (sint m') (sint (1::int32))"
    unfolding canonical_date_def sm' using days_in_month_bounds(1) [of "sint y'" "K mod 12 + 1"]
    by simp
  from n_day_id [OF this, of "hour f" "minute f" "second f"]
  show ?thesis
    unfolding step.simps n_mon_alt m2 y' d1 km [symmetric] m'_def [symmetric]
    unfolding y'_def m'_def K_def Y_def M_def N_def by simp
qed

lemma step_month_exact:
  assumes c: "canonical f" and d1: "day f = 1"
    and safe: "safe month_tag (ordinal month_tag f + sint n)"
  shows "\<exists>f'. step month_tag f n = Some f' \<and> canonical f' \<and> day f' = 1 \<and>
           hour f' = hour f \<and> minute f' = minute f \<and> second f' = second f \<and>
           ordinal month_tag f' = ordinal month_tag f + sint n"
proof -
  note cf = canonical_fields [OF c]
  define K where "K = ordinal month_tag f + sint n"
  have kb: "- 2147483648 \<le> K div 12" "K div 12 < 2147483648"
    using safe by (simp_all add: K_def)
  define f' where "f' = \<lparr>year = word_of_int (K div 12), month = word_of_int (K mod 12 + 1),
           day = 1, hour = hour f, minute = minute f, second = second f\<rparr>"
  have r: "step month_tag f n = Some f'"
    unfolding f'_def K_def by (rule step_month_result [OF c d1])
  have sy: "sint (year f') = K div 12"
    unfolding f'_def using kb by (simp add: sint_of_int_eq32)
  have "sint (word_of_int (K mod 12 + 1) :: int32) = K mod 12 + 1"
    using sint_month_word [of "K + 1"] by simp
  then have sm: "sint (month f') = K mod 12 + 1"
    by (simp add: f'_def)
  have "canonical f'"
    unfolding canonical_def canonical_date_def sm sy
    using cf days_in_month_bounds(1) [of "K div 12" "K mod 12 + 1"]
    by (simp add: f'_def)
  moreover have "ordinal month_tag f' = K"
    by (simp add: sy sm)
  ultimately show ?thesis
    using r by (simp add: f'_def K_def)
qed

lemma step_year_exact:
  assumes c: "canonical f" and a: "month f = 1" "day f = 1"
    and safe: "safe year_tag (ordinal year_tag f + sint n)"
  shows "\<exists>f'. step year_tag f n = Some f' \<and> canonical f' \<and> month f' = 1 \<and> day f' = 1 \<and>
           hour f' = hour f \<and> minute f' = minute f \<and> second f' = second f \<and>
           ordinal year_tag f' = ordinal year_tag f + sint n"
proof -
  note cf = canonical_fields [OF c]
  have "sint (year f + n) = sint (year f) + sint n"
    using safe by (intro sint_add32) simp_all
  moreover have "canonical \<lparr>year = year f + n, month = month f, day = day f,
           hour = hour f, minute = minute f, second = second f\<rparr>"
    using cf a unfolding canonical_def canonical_date_def
    by (simp add: days_in_month_def)
  ultimately show ?thesis
    using a by simp
qed

lemma step_exact:
  assumes "canonical f" "aligned T f" "safe T (ordinal T f + sint n)"
  shows "\<exists>f'. step T f n = Some f' \<and> canonical f' \<and> aligned T f' \<and>
           ordinal T f' = ordinal T f + sint n"
proof (cases T)
  case second_tag
  then show ?thesis using step_second_exact [of f n] assms by auto
next
  case minute_tag
  then show ?thesis using step_minute_exact [of f n] assms by auto
next
  case hour_tag
  then show ?thesis using step_hour_exact [of f n] assms by auto
next
  case day_tag
  then show ?thesis using step_day_exact [of f n] assms by auto
next
  case month_tag
  then show ?thesis using step_month_exact [of f n] assms by auto
next
  case year_tag
  then show ?thesis using step_year_exact [of f n] assms by auto
qed

lemma step_valid:
  assumes c: "canonical f" and a: "aligned T f"
  shows "\<exists>f'. step T f n = Some f' \<and> canonical f' \<and> aligned T f'"
proof (cases T)
  case second_tag
  then show ?thesis
    using n_sec_canonical [of "year f" "month f" "day f" "hour f" "minute f + c_div n 60"
        "second f + c_mod n 60"] by simp
next
  case minute_tag
  note cf = canonical_fields [OF c]
  obtain y' m' d' h' mi' where r: "n_min (year f) (month f) (day f) (hour f + c_div n 60) 0
        (minute f + c_mod n 60) (second f) =
        Some \<lparr>year = y', month = m', day = d', hour = h', minute = mi', second = second f\<rparr>"
    and p: "canonical_date (sint y') (sint m') (sint d')" "0 \<le> sint h'" "sint h' < 24"
      "0 \<le> sint mi'" "sint mi' < 60"
    using n_min_canonical by blast
  show ?thesis
    using minute_tag r p a cf by (simp add: canonical_def)
next
  case hour_tag
  note cf = canonical_fields [OF c]
  obtain y' m' d' h' where r: "n_hour (year f) (month f) (day f + c_div n 24) 0
        (hour f + c_mod n 24) (minute f) (second f) =
        Some \<lparr>year = y', month = m', day = d', hour = h', minute = minute f, second = second f\<rparr>"
    and p: "canonical_date (sint y') (sint m') (sint d')" "0 \<le> sint h'" "sint h' < 24"
    using n_hour_canonical by blast
  show ?thesis
    using hour_tag r p a cf by (simp add: canonical_def)
next
  case day_tag
  note cf = canonical_fields [OF c]
  obtain y' m' d' where r: "n_day (year f) (month f) (day f) n (hour f) (minute f) (second f) =
        Some \<lparr>year = y', month = m', day = d', hour = hour f, minute = minute f, second = second f\<rparr>"
    and p: "canonical_date (sint y') (sint m') (sint d')"
    using n_day_canonical [OF cf(1,2)] by blast
  show ?thesis
    using day_tag r p a cf by (simp add: canonical_def)
next
  case month_tag
  note cf = canonical_fields [OF c]
  define K where "K = ordinal month_tag f + sint n"
  have d1: "day f = 1" using a month_tag by simp
  have "sint (word_of_int (K mod 12 + 1) :: int32) = K mod 12 + 1"
    using sint_month_word [of "K + 1"] by simp
  then have "canonical \<lparr>year = word_of_int (K div 12), month = word_of_int (K mod 12 + 1),
           day = 1, hour = hour f, minute = minute f, second = second f\<rparr>"
    unfolding canonical_def canonical_date_def
    using cf days_in_month_bounds(1) [of "sint (word_of_int (K div 12) :: int32)" "K mod 12 + 1"]
    by simp
  then show ?thesis
    using month_tag a step_month_result [OF c d1, of n] by (simp add: K_def)
next
  case year_tag
  note cf = canonical_fields [OF c]
  have "canonical \<lparr>year = year f + n, month = month f, day = day f,
           hour = hour f, minute = minute f, second = second f\<rparr>"
    using cf a year_tag unfolding canonical_def canonical_date_def
    by (simp add: days_in_month_def)
  then show ?thesis
    using year_tag a by simp
qed

lemma align_id: "aligned T f \<Longrightarrow> align T f = f"
  by (cases T) simp_all

lemma align_aligned: "aligned T (align T f)"
  by (cases T) simp_all

lemma align_canonical:
  assumes "canonical f"
  shows "canonical (align T f)"
  using assms days_in_month_bounds(1) [of "sint (year f)" "sint (month f)"]
  by (cases T) (simp_all add: canonical_def canonical_date_def days_in_month_def)

lemma fields_eqI:
  fixes f g :: fields
  assumes "sint (year f) = sint (year g)" "sint (month f) = sint (month g)"
    "sint (day f) = sint (day g)" "sint (hour f) = sint (hour g)"
    "sint (minute f) = sint (minute g)" "sint (second f) = sint (second g)"
  shows "f = g"
  using assms by (simp add: word_eq_iff_signed [where ?'a = int, symmetric])

lemma div_mod_unique:
  fixes a b :: int
  assumes "a * K + r = b * K + s" "0 \<le> r" "r < K" "0 \<le> s" "s < K"
  shows "a = b \<and> r = s"
proof -
  have "(a * K + r) div K = a"
    by (rule int_div_pos_eq [OF _ assms(2,3)]) simp
  moreover have "(b * K + s) div K = b"
    by (rule int_div_pos_eq [OF _ assms(4,5)]) simp
  ultimately have "a = b" using assms(1) by simp
  then show ?thesis using assms(1) by simp
qed

lemma ordinal_inj:
  assumes cf: "canonical f" and cg: "canonical g"
    and af: "aligned T f" and ag: "aligned T g"
    and eq: "ordinal T f = ordinal T g"
  shows "f = g"
proof -
  note f = canonical_fields [OF cf] and g = canonical_fields [OF cg]
  have day: "f = g" if d: "day_ord f = day_ord g" and h: "sint (hour f) = sint (hour g)"
    and m: "sint (minute f) = sint (minute g)" and s: "sint (second f) = sint (second g)"
  proof -
    have "sint (year f) = sint (year g) \<and> sint (month f) = sint (month g) \<and>
        sint (day f) = sint (day g)"
      using days_from_civil_inj [OF f(11) g(11)] d by (simp add: day_ord_def)
    then show ?thesis using h m s by (intro fields_eqI) simp_all
  qed
  show ?thesis
  proof (cases T)
    case second_tag
    have 1: "(day_ord f * 24 + sint (hour f)) * 60 + sint (minute f) =
        (day_ord g * 24 + sint (hour g)) * 60 + sint (minute g) \<and>
        sint (second f) = sint (second g)"
      using eq f g unfolding second_tag ordinal.simps by (intro div_mod_unique) simp_all
    then have 2: "day_ord f * 24 + sint (hour f) = day_ord g * 24 + sint (hour g) \<and>
        sint (minute f) = sint (minute g)"
      using f g by (intro div_mod_unique) simp_all
    then have 3: "day_ord f = day_ord g \<and> sint (hour f) = sint (hour g)"
      using f g by (intro div_mod_unique) simp_all
    show ?thesis using 1 2 3 by (intro day) simp_all
  next
    case minute_tag
    have 2: "day_ord f * 24 + sint (hour f) = day_ord g * 24 + sint (hour g) \<and>
        sint (minute f) = sint (minute g)"
      using eq f g unfolding minute_tag ordinal.simps by (intro div_mod_unique) simp_all
    then have 3: "day_ord f = day_ord g \<and> sint (hour f) = sint (hour g)"
      using f g by (intro div_mod_unique) simp_all
    show ?thesis using 2 3 af ag minute_tag by (intro day) simp_all
  next
    case hour_tag
    have 3: "day_ord f = day_ord g \<and> sint (hour f) = sint (hour g)"
      using eq f g unfolding hour_tag ordinal.simps by (intro div_mod_unique) simp_all
    show ?thesis using 3 af ag hour_tag by (intro day) simp_all
  next
    case day_tag
    show ?thesis using eq af ag day_tag by (intro day) simp_all
  next
    case month_tag
    have "sint (year f) * 12 + (sint (month f) - 1) = sint (year g) * 12 + (sint (month g) - 1)"
      using eq month_tag by simp
    moreover have "0 \<le> sint (month f) - 1" "sint (month f) - 1 < 12"
      "0 \<le> sint (month g) - 1" "sint (month g) - 1 < 12"
      using f(1,2) g(1,2) by linarith+
    ultimately have "sint (year f) = sint (year g) \<and> sint (month f) - 1 = sint (month g) - 1"
      by (rule div_mod_unique)
    then show ?thesis using af ag month_tag by (intro fields_eqI) simp_all
  next
    case year_tag
    then show ?thesis using eq af ag by (intro fields_eqI) simp_all
  qed
qed

lemma supported_bounds:
  "ordinal year_tag (start_of_year (- 5877641)) = - 5877641"
  "ordinal year_tag (start_of_year 5881581) = 5881581"
  "ordinal month_tag (start_of_year (- 5877641)) = 12 * (- 5877641)"
  "ordinal month_tag (start_of_year 5881581) = 12 * 5881581"
  "day_ord (start_of_year (- 5877641)) = - 2147483821"
  "day_ord (start_of_year 5881581) = 2147483821"
  by (simp_all add: start_of_year_def day_ord_def days_from_civil_def civil_year_def
        day_of_civil_year_def)

subsection \<open>The supported range and the assigning operators\<close>

lemma supported_iff:
  "supported year_tag k \<longleftrightarrow> - 5877641 \<le> k \<and> k < 5881581"
  "supported month_tag k \<longleftrightarrow> - 70531692 \<le> k \<and> k < 70578972"
  "supported day_tag k \<longleftrightarrow> - 2147483821 \<le> k \<and> k < 2147483821"
  "supported hour_tag k \<longleftrightarrow> - 51539611704 \<le> k \<and> k < 51539611704"
  "supported minute_tag k \<longleftrightarrow> - 3092376702240 \<le> k \<and> k < 3092376702240"
  "supported second_tag k \<longleftrightarrow> - 185542602134400 \<le> k \<and> k < 185542602134400"
  by (simp_all add: supported_def start_of_year_def day_ord_def days_from_civil_def
        civil_year_def day_of_civil_year_def)

lemma supported_safe:
  assumes s: "supported T k" and j: "- 8 \<le> j" "j \<le> 8"
  shows "safe T (k + j)"
proof (cases T)
  case year_tag
  then show ?thesis using s j by (simp add: supported_iff)
next
  case month_tag
  have "- 70531700 \<le> k + j" "k + j \<le> 70578980"
    using s j month_tag by (simp_all add: supported_iff)
  then have "(- 70531700) div 12 \<le> (k + j) div 12" "(k + j) div 12 \<le> 70578980 div 12"
    by (intro zdiv_mono1; simp)+
  then show ?thesis using month_tag by simp
next
  case day_tag
  then show ?thesis
    using s j by (simp add: supported_iff safe_day_def)
next
  case hour_tag
  have "- 51539611712 \<le> k + j" "k + j \<le> 51539611712"
    using s j hour_tag by (simp_all add: supported_iff)
  then have "(- 51539611712) div 24 \<le> (k + j) div 24" "(k + j) div 24 \<le> 51539611712 div 24"
    by (intro zdiv_mono1; simp)+
  then show ?thesis using hour_tag by (simp add: safe_day_def)
next
  case minute_tag
  have "- 3092376702248 \<le> k + j" "k + j \<le> 3092376702248"
    using s j minute_tag by (simp_all add: supported_iff)
  then have "(- 3092376702248) div 1440 \<le> (k + j) div 1440"
    "(k + j) div 1440 \<le> 3092376702248 div 1440"
    by (intro zdiv_mono1; simp)+
  moreover have "(k + j) div 60 div 24 = (k + j) div 1440"
    by (simp add: zdiv_zmult2_eq [symmetric])
  ultimately show ?thesis using minute_tag by (simp add: safe_day_def)
next
  case second_tag
  have "- 185542602134408 \<le> k + j" "k + j \<le> 185542602134408"
    using s j second_tag by (simp_all add: supported_iff)
  then have "(- 185542602134408) div 86400 \<le> (k + j) div 86400"
    "(k + j) div 86400 \<le> 185542602134408 div 86400"
    by (intro zdiv_mono1; simp)+
  moreover have "(k + j) div 60 div 60 div 24 = (k + j) div 86400"
    by (simp add: zdiv_zmult2_eq [symmetric])
  ultimately show ?thesis using second_tag by (simp add: safe_day_def)
qed

lemma supported_safe0: "supported T k \<Longrightarrow> safe T k"
  using supported_safe [of T k 0] by simp

lemma op_plus_assign_exact:
  assumes v: "valid v" and s: "safe (tag_of v) (ordinal (tag_of v) (rep v) + sint n)"
  shows "\<exists>w. op_plus_assign v n = Some w \<and> valid w \<and> tag_of w = tag_of v \<and>
           ordinal (tag_of v) (rep w) = ordinal (tag_of v) (rep v) + sint n"
proof -
  have "canonical (rep v)" "aligned (tag_of v) (rep v)"
    using v by (simp_all add: valid_def)
  from step_exact [OF this s]
  show ?thesis
    by (auto simp: op_plus_assign_def valid_def)
qed

lemma valid_ordinal_eq:
  assumes "valid v" "valid w" "tag_of v = tag_of w"
    "ordinal (tag_of v) (rep v) = ordinal (tag_of v) (rep w)"
  shows "v = w"
proof -
  have "rep v = rep w"
    using assms by (intro ordinal_inj [of _ _ "tag_of v"]) (simp_all add: valid_def)
  then show ?thesis using assms(3) by simp
qed

lemma sint_int_min: "sint int_min = - 2147483648"
  by (simp add: int_min_def)

lemma sint_neg:
  assumes "n \<noteq> int_min"
  shows "sint (- n) = - sint n"
proof -
  have "sint n \<noteq> - 2147483648"
    using assms word_eq_iff_signed [where ?'a = int, of n int_min] by (simp add: int_min_def)
  then have "- 2147483648 \<le> - sint n" "- sint n < 2147483648"
    using sint_bounds32 [of n] by linarith+
  then show ?thesis
    by (simp add: sint_word_ariths signed_take_bit_int_eq_self)
qed

lemma op_minus_assign_exact:
  assumes v: "valid v"
    and s: "safe (tag_of v) (ordinal (tag_of v) (rep v) - sint n)"
    and s1: "n = int_min \<Longrightarrow> safe (tag_of v) (ordinal (tag_of v) (rep v) - sint n - 1)"
  shows "\<exists>w. op_minus_assign v n = Some w \<and> valid w \<and> tag_of w = tag_of v \<and>
           ordinal (tag_of v) (rep w) = ordinal (tag_of v) (rep v) - sint n"
proof (cases "n = int_min")
  case False
  have c: "canonical (rep v)" "aligned (tag_of v) (rep v)"
    using v by (simp_all add: valid_def)
  have "safe (tag_of v) (ordinal (tag_of v) (rep v) + sint (- n))"
    using s by (simp add: sint_neg [OF False])
  from step_exact [OF c this]
  show ?thesis
    using False by (auto simp: op_minus_assign_def valid_def sint_neg)
next
  case True
  have c: "canonical (rep v)" "aligned (tag_of v) (rep v)"
    using v by (simp_all add: valid_def)
  have m: "- (n + 1) = (2147483647 :: int32)" "- int_min - 1 = (2147483647 :: int32)"
    unfolding True int_min_def by simp_all
  have "safe (tag_of v) (ordinal (tag_of v) (rep v) + sint (2147483647 :: int32))"
    using s1 [OF True] by (simp add: True sint_int_min add.commute)
  from step_exact [OF c this]
  obtain f1 where f1: "step (tag_of v) (rep v) 2147483647 = Some f1" "canonical f1"
    "aligned (tag_of v) f1" "ordinal (tag_of v) f1 = ordinal (tag_of v) (rep v) + 2147483647"
    by auto
  have "ordinal (tag_of v) f1 + sint (1 :: int32) = ordinal (tag_of v) (rep v) - sint n"
    unfolding f1(4) True sint_int_min by simp
  then have "safe (tag_of v) (ordinal (tag_of v) f1 + sint (1 :: int32))"
    using s by simp
  from step_exact [OF f1(2,3) this]
  obtain f2 where f2: "step (tag_of v) f1 1 = Some f2" "canonical f2"
    "aligned (tag_of v) f2" "ordinal (tag_of v) f2 = ordinal (tag_of v) f1 + 1"
    by auto
  have "ordinal (tag_of v) f2 = ordinal (tag_of v) (rep v) - sint n"
    unfolding f2(4) f1(4) True sint_int_min by simp
  then show ?thesis
    using True f1(1) f2(1,2,3) by (simp add: op_minus_assign_def m valid_def)
qed

lemma canonical_year_range:
  assumes c: "canonical_date Y M D"
  shows "Y0 \<le> Y \<longleftrightarrow> days_from_civil Y0 1 1 \<le> days_from_civil Y M D"
proof -
  define k where "k = 12 * Y + (M - 1)"
  note w = canonical_date_window [OF c, folded k_def]
  have m: "1 \<le> M" "M \<le> 12" using c by (simp_all add: canonical_date_def)
  have s0: "month_start (12 * Y0) = days_from_civil Y0 1 1"
    by (simp add: month_start_def)
  show ?thesis
  proof
    assume "Y0 \<le> Y"
    then have "12 * Y0 \<le> k" using m by (simp add: k_def)
    then have "month_start (12 * Y0) \<le> month_start k"
      using month_start_mono [of "12 * Y0" k] by simp
    then show "days_from_civil Y0 1 1 \<le> days_from_civil Y M D"
      using w(1) s0 by simp
  next
    assume a: "days_from_civil Y0 1 1 \<le> days_from_civil Y M D"
    show "Y0 \<le> Y"
    proof (rule ccontr)
      assume "\<not> Y0 \<le> Y"
      then have "k + 1 \<le> 12 * Y0" using m by (simp add: k_def)
      then have "month_start (k + 1) \<le> month_start (12 * Y0)"
        using month_start_mono [of "k + 1" "12 * Y0"] by simp
      then show False using w(2) s0 a by simp
    qed
  qed
qed

lemma supported_day_year:
  assumes c: "canonical f"
  shows "supported day_tag (day_ord f) \<longleftrightarrow>
           - 5877641 \<le> sint (year f) \<and> sint (year f) \<le> 5881580"
proof -
  note cd = canonical_fields(11) [OF c]
  have lo: "days_from_civil (- 5877641) 1 1 = - 2147483821"
    and hi: "days_from_civil 5881581 1 1 = 2147483821"
    by (simp_all add: days_from_civil_def civil_year_def day_of_civil_year_def)
  have "- 5877641 \<le> sint (year f) \<longleftrightarrow> - 2147483821 \<le> day_ord f"
    using canonical_year_range [OF cd, of "- 5877641"] by (simp add: lo day_ord_def)
  moreover have "5881581 \<le> sint (year f) \<longleftrightarrow> 2147483821 \<le> day_ord f"
    using canonical_year_range [OF cd, of 5881581] by (simp add: hi day_ord_def)
  ultimately show ?thesis
    by (auto simp: supported_iff)
qed

section \<open>The day ordinal of the code\<close>

lemma era_floor:
  fixes E :: int
  shows "(if 0 \<le> E then E else E - 399) sdiv 400 = E div 400"
proof (cases "0 \<le> E")
  case True
  then show ?thesis by (simp add: sdiv_pos)
next
  case False
  have b: "0 \<le> E mod 400" "E mod 400 < 400" by simp_all
  have "E = 400 * (E div 400) + E mod 400"
    by simp
  then have "399 - E = 400 * (- (E div 400)) + (399 - E mod 400)"
    by linarith
  moreover have "0 \<le> 399 - E mod 400" "399 - E mod 400 < 400"
    using b by linarith+
  ultimately have "(399 - E) div 400 = - (E div 400)"
    by (rule int_div_pos_eq)
  then show ?thesis
    using False by (simp add: sdiv_neg)
qed

lemma doy_exact:
  assumes m: "1 \<le> sint m" "sint m \<le> 12"
  shows "doy m d = word_of_int (day_of_civil_year (sint m) (sint d))"
proof -
  define k :: int32 where "k = 153 * (m + (if 2 <s m then - 3 else 9)) + 2"
  have k: "k = word_of_int (153 * (sint m + (if 2 < sint m then - 3 else 9)) + 2)"
    unfolding k_def by (simp add: word_sless_alt)
  have kb: "0 \<le> 153 * (sint m + (if 2 < sint m then - 3 else 9)) + 2"
    "153 * (sint m + (if 2 < sint m then - 3 else 9)) + 2 < 2147483648"
    using m by (auto split: if_splits)
  have sk: "sint k = 153 * (sint m + (if 2 < sint m then - 3 else 9)) + 2"
    unfolding k by (rule sint_small_word [OF kb])
  have "c_div k 5 = word_of_int ((153 * (sint m + (if 2 < sint m then - 3 else 9)) + 2) div 5)"
    unfolding c_div_def sk using kb(1) by (simp add: sdiv_pos)
  then show ?thesis
    unfolding doy_def k_def [symmetric] day_of_civil_year_def by simp
qed

lemma ymd_ord_exact:
  assumes m: "1 \<le> sint m" "sint m \<le> 12" and y: "- 2147483248 \<le> sint y"
  shows "ymd_ord y m d = word_of_int (days_from_civil (sint y) (sint m) (sint d))"
proof -
  define E where "E = civil_year (sint y) (sint m)"
  define e where "e = (if m \<le>s 2 then y - 1 else y)"
  have se: "sint e = E"
    unfolding e_def E_def civil_year_def using y sint_bounds32 [of y]
    by (auto simp: word_sle_eq sint_sub32)
  have Eb: "- 2147483249 \<le> E"
    unfolding E_def civil_year_def using y by auto
  define x where "x = (if 0 \<le>s e then e else e - 399)"
  have sx: "sint x = (if 0 \<le> E then E else E - 399)"
    unfolding x_def using Eb sint_bounds32 [of e] se
    by (auto simp: word_sle_eq sint_sub32)
  define era :: int32 where "era = c_div x 400"
  have era: "era = word_of_int (E div 400)"
    unfolding era_def c_div_def sx by (simp add: era_floor)
  define yoe where "yoe = e - era * 400"
  have "yoe = word_of_int (E - E div 400 * 400)"
    unfolding yoe_def era se [symmetric] by simp
  then have yoe: "yoe = word_of_int (E mod 400)"
    by (simp add: minus_div_mult_eq_mod)
  have syoe: "sint yoe = E mod 400"
    unfolding yoe by (rule sint_mod_word) simp_all
  have yb: "0 \<le> E mod 400" by simp
  have q4: "c_div yoe 4 = word_of_int (E mod 400 div 4)"
    and q100: "c_div yoe 100 = word_of_int (E mod 400 div 100)"
    unfolding c_div_def syoe using yb by (simp_all add: sdiv_pos)
  have "ymd_ord y m d = era * 146097 + doe yoe m d - 719468"
    by (simp add: ymd_ord_def eymd_ord_def era_eymd_ord_def e_def x_def era_def yoe_def)
  also have "\<dots> = word_of_int (E div 400 * 146097
      + (E mod 400 * 365 + E mod 400 div 4 - E mod 400 div 100
          + day_of_civil_year (sint m) (sint d)) - 719468)"
    unfolding doe_def q4 q100 doy_exact [OF m] era unfolding yoe by simp
  finally show ?thesis
    by (simp add: days_from_civil_def Let_def E_def)
qed

lemma neg_int_min: "- int_min = int_min"
  by (simp add: int_min_def)

lemma from_fields_aligned:
  assumes "aligned (tag_of a) f"
  shows "from_fields (tag_of a) f = a\<lparr>rep := f\<rparr>"
  by (simp add: from_fields_def align_id [OF assms])

lemma op_plus_eq_assign:
  assumes "valid a"
  shows "op_plus a n = op_plus_assign a n"
proof -
  have c: "canonical (rep a)" "aligned (tag_of a) (rep a)"
    using assms by (simp_all add: valid_def)
  obtain f where "step (tag_of a) (rep a) n = Some f" "aligned (tag_of a) f"
    using step_valid [OF c, of n] by blast
  then show ?thesis
    by (simp add: op_plus_def op_plus_assign_def from_fields_aligned)
qed

section \<open>The invariant of civil-time values (C1)\<close>

lemma c_div_mod_small:
  fixes a :: int32
  assumes "0 \<le> sint a" "sint a < K" "sint (kw::int32) = K"
  shows "c_div a kw = 0" "c_mod a kw = a" "sint a div K = 0" "sint a mod K = sint a"
proof -
  have K: "0 < K" using assms by simp
  show d: "sint a div K = 0" and m: "sint a mod K = sint a"
    using assms by (simp_all add: div_pos_pos_trivial mod_pos_pos_trivial)
  show "c_div a kw = 0"
    unfolding c_div_def assms(3) using assms(1) K d by (simp add: sdiv_pos)
  show "c_mod a kw = a"
    unfolding c_mod_def assms(3) using assms(1) K m by (simp add: smod_pos)
qed

lemma n_sec_id:
  assumes c: "canonical f"
  shows "n_sec (year f) (month f) (day f) (hour f) (minute f) (second f) = Some f"
proof -
  note cf = canonical_fields [OF c]
  note s = c_div_mod_small [OF cf(9,10), of 60, simplified]
  note mi = c_div_mod_small [OF cf(7,8), of 60, simplified]
  note h = c_div_mod_small [OF cf(5,6), of 24, simplified]
  have z: "c_div 0 60 = 0" "c_mod 0 60 = 0" "c_div 0 24 = 0" "c_mod 0 24 = 0"
    by (simp_all add: c_div_def c_mod_def)
  have "0 \<le> sint (month f) - 1" "sint (month f) - 1 < 12" using cf(1,2) by linarith+
  then have mo: "(sint (month f) - 1) div 12 = 0" "(sint (month f) - 1) mod 12 + 1 = sint (month f)"
    by (simp_all add: div_pos_pos_trivial mod_pos_pos_trivial)
  have "n_sec (year f) (month f) (day f) (hour f) (minute f) (second f) =
      n_min (year f) (month f) (day f) (hour f) 0 (minute f) (second f)"
    unfolding n_sec_alt s mi by (simp add: z)
  also have "\<dots> = n_hour (year f) (month f) (day f) 0 (hour f) (minute f) (second f)"
    unfolding n_min_alt mi h by (simp add: z)
  also have "\<dots> = n_mon (year f) (month f) (day f) 0 (hour f) (minute f) (second f)"
    unfolding n_hour_alt h by simp
  also have "\<dots> = n_day (year f) (month f) (day f) 0 (hour f) (minute f) (second f)"
    unfolding n_mon_alt mo by simp
  also have "\<dots> = Some f"
    using n_day_id [OF cf(11), of "hour f" "minute f" "second f"] by simp
  finally show ?thesis .
qed

text \<open>
  C1. Every operation that produces a \<open>civil_time\<close> value -- construction from six
  arbitrary 32-bit fields, \<open>+=\<close>, \<open>-=\<close>, binary \<open>+\<close> and \<open>-\<close>, and conversion from
  another alignment -- returns a value (never an out-of-table read) whose stored fields
  are canonical (month in 1..12, day in 1..days_in_month, hour < 24, minute < 60,
  second < 60) with every field below the alignment at its minimum; and constructing a
  value again from the fields read back gives the same value.
\<close>

theorem civil_time_invariant:
  "(\<exists>v. make_civil_time T y m d hh mm ss = Some v \<and> valid v \<and> tag_of v = T) \<and>
   (valid a \<longrightarrow>
      (\<exists>v. op_plus_assign a n = Some v \<and> valid v \<and> tag_of v = tag_of a) \<and>
      (\<exists>v. op_minus_assign a n = Some v \<and> valid v \<and> tag_of v = tag_of a) \<and>
      (\<exists>v. op_plus a n = Some v \<and> valid v \<and> tag_of v = tag_of a) \<and>
      (\<exists>v. op_minus a n = Some v \<and> valid v \<and> tag_of v = tag_of a) \<and>
      valid (convert U a) \<and> tag_of (convert U a) = U \<and>
      make_civil_time (tag_of a) (year (rep a)) (month (rep a)) (day (rep a))
        (hour (rep a)) (minute (rep a)) (second (rep a)) = Some a)"
proof -
  have make: "\<exists>v. make_civil_time T y m d hh mm ss = Some v \<and> valid v \<and> tag_of v = T"
  proof -
    obtain f where "n_sec y m d hh mm ss = Some f" "canonical f"
      using n_sec_canonical by blast
    then show ?thesis
      by (simp add: make_civil_time_def from_fields_def valid_def align_canonical align_aligned)
  qed
  have rest: "(\<exists>v. op_plus_assign a n = Some v \<and> valid v \<and> tag_of v = tag_of a) \<and>
      (\<exists>v. op_minus_assign a n = Some v \<and> valid v \<and> tag_of v = tag_of a) \<and>
      (\<exists>v. op_plus a n = Some v \<and> valid v \<and> tag_of v = tag_of a) \<and>
      (\<exists>v. op_minus a n = Some v \<and> valid v \<and> tag_of v = tag_of a) \<and>
      valid (convert U a) \<and> tag_of (convert U a) = U \<and>
      make_civil_time (tag_of a) (year (rep a)) (month (rep a)) (day (rep a))
        (hour (rep a)) (minute (rep a)) (second (rep a)) = Some a"
    if v: "valid a"
  proof -
    have c: "canonical (rep a)" and al: "aligned (tag_of a) (rep a)"
      using v by (simp_all add: valid_def)
    have st: "\<exists>f'. step (tag_of a) (rep a) k = Some f' \<and> canonical f' \<and> aligned (tag_of a) f'" for k
      by (rule step_valid [OF c al])
    have 1: "\<exists>v. op_plus_assign a n = Some v \<and> valid v \<and> tag_of v = tag_of a"
      using st [of n] by (auto simp: op_plus_assign_def valid_def)
    have 2: "\<exists>v. op_minus_assign a n = Some v \<and> valid v \<and> tag_of v = tag_of a"
    proof (cases "n = int_min")
      case False
      then show ?thesis
        using st [of "- n"] by (auto simp: op_minus_assign_def valid_def)
    next
      case True
      obtain f1 where f1: "step (tag_of a) (rep a) (- (n + 1)) = Some f1" "canonical f1"
        "aligned (tag_of a) f1"
        using st [of "- (n + 1)"] by blast
      obtain f2 where f2: "step (tag_of a) f1 1 = Some f2" "canonical f2" "aligned (tag_of a) f2"
        using step_valid [OF f1(2,3), of 1] by blast
      show ?thesis
        using True f1 f2 by (simp add: op_minus_assign_def valid_def)
    qed
    have 3: "\<exists>v. op_plus a n = Some v \<and> valid v \<and> tag_of v = tag_of a"
      using st [of n]
      by (auto simp: op_plus_def from_fields_def valid_def align_canonical align_aligned)
    have 4: "\<exists>v. op_minus a n = Some v \<and> valid v \<and> tag_of v = tag_of a"
      using st [of "- n"]
      by (auto simp: op_minus_def from_fields_def valid_def align_canonical align_aligned)
    have 5: "valid (convert U a) \<and> tag_of (convert U a) = U"
      using c by (simp add: convert_def from_fields_def valid_def align_canonical align_aligned)
    have 6: "make_civil_time (tag_of a) (year (rep a)) (month (rep a)) (day (rep a))
        (hour (rep a)) (minute (rep a)) (second (rep a)) = Some a"
      using n_sec_id [OF c] align_id [OF al]
      by (simp add: make_civil_time_def from_fields_def)
    show ?thesis using 1 2 3 4 5 6 by blast
  qed
  show ?thesis using make rest by blast
qed

theorem civil_time_invariant_witness:
  "valid \<lparr>tag_of = day_tag,
      rep = \<lparr>year = 2000, month = 2, day = 29, hour = 0, minute = 0, second = 0\<rparr>\<rparr> \<and>
   (\<exists>v. op_plus_assign \<lparr>tag_of = day_tag,
      rep = \<lparr>year = 2000, month = 2, day = 29, hour = 0, minute = 0, second = 0\<rparr>\<rparr> 1 = Some v \<and>
      valid v) \<and>
   valid (convert month_tag \<lparr>tag_of = day_tag,
      rep = \<lparr>year = 2000, month = 2, day = 29, hour = 0, minute = 0, second = 0\<rparr>\<rparr>) \<and>
   make_civil_time day_tag 2000 2 29 0 0 0 = Some \<lparr>tag_of = day_tag,
      rep = \<lparr>year = 2000, month = 2, day = 29, hour = 0, minute = 0, second = 0\<rparr>\<rparr>"
  (is "valid ?a \<and> _ \<and> _ \<and> _")
proof -
  have v: "valid ?a"
    by (simp add: valid_def canonical_def canonical_date_def days_in_month_def leap_year_def)
  from civil_time_invariant [of day_tag 0 0 0 0 0 0 ?a 1 month_tag] v
  show ?thesis by simp blast
qed

section \<open>Stepping forth and back (C2)\<close>

lemma year_roundtrip:
  assumes "tag_of v = year_tag"
  shows "Option.bind (op_plus_assign v n) (\<lambda>w. op_minus_assign w n) = Some v"
proof (cases "n = int_min")
  case False
  then show ?thesis
    using assms by (simp add: op_plus_assign_def op_minus_assign_def)
next
  case True
  have "year (rep v) + int_min + (- (int_min + 1)) + 1 = year (rep v)"
    by simp
  then show ?thesis
    using assms True by (simp add: op_plus_assign_def op_minus_assign_def)
qed

lemma step_month_tracked:
  assumes c: "canonical f" and d1: "day f = 1"
    and y: "year f = y0 + word_of_int (P div 12)" and m: "sint (month f) = P mod 12 + 1"
  shows "\<exists>g. step month_tag f n = Some g \<and> canonical g \<and> day g = 1 \<and>
           hour g = hour f \<and> minute g = minute f \<and> second g = second f \<and>
           year g = y0 + word_of_int ((P + sint n) div 12) \<and>
           sint (month g) = (P + sint n) mod 12 + 1"
proof -
  note cf = canonical_fields [OF c]
  define K where "K = ordinal month_tag f + sint n"
  define g where "g = \<lparr>year = word_of_int (K div 12) :: int32,
      month = word_of_int (K mod 12 + 1) :: int32,
      day = 1, hour = hour f, minute = minute f, second = second f\<rparr>"
  have r: "step month_tag f n = Some g"
    unfolding g_def K_def by (rule step_month_result [OF c d1])
  have K: "K = 12 * sint (year f) + (P mod 12 + sint n)"
    unfolding K_def using m by simp
  have kd: "K div 12 = sint (year f) + (P mod 12 + sint n) div 12"
    and km: "K mod 12 = (P mod 12 + sint n) mod 12"
    unfolding K using div_mod_carry [of 12 "sint (year f)" "P mod 12 + sint n"] by simp_all
  have P: "P + sint n = 12 * (P div 12) + (P mod 12 + sint n)"
    by simp
  have pd: "(P + sint n) div 12 = P div 12 + (P mod 12 + sint n) div 12"
    and pm: "(P + sint n) mod 12 = (P mod 12 + sint n) mod 12"
    using div_mod_carry [of 12 "P div 12" "P mod 12 + sint n"] unfolding P [symmetric]
    by simp_all
  have yg: "year g = y0 + word_of_int ((P + sint n) div 12)"
    unfolding g_def pd kd by (simp add: y)
  have mg: "sint (month g) = (P + sint n) mod 12 + 1"
    unfolding g_def pm km [symmetric] by (simp add: sint_month_word [of "K + 1", simplified])
  have "canonical g"
    using cf mg days_in_month_bounds(1) [of "sint (year g)" "sint (month g)"]
    by (simp add: canonical_def canonical_date_def g_def)
  then show ?thesis
    using r yg mg by (simp add: g_def)
qed

lemma month_roundtrip:
  assumes v: "valid v" and t: "tag_of v = month_tag"
  shows "Option.bind (op_plus_assign v n) (\<lambda>w. op_minus_assign w n) = Some v"
proof -
  define f where "f = rep v"
  have c: "canonical f" and al: "day f = 1" "hour f = 0" "minute f = 0" "second f = 0"
    using v t by (simp_all add: valid_def f_def)
  note cf = canonical_fields [OF c]
  define P where "P = sint (month f) - 1"
  have Pb: "0 \<le> P" "P < 12"
    using cf(1,2) by (simp_all add: P_def)
  have P0: "P div 12 = 0" "P mod 12 = P"
    using Pb by (simp_all add: div_pos_pos_trivial mod_pos_pos_trivial)
  have y: "year f = year f + word_of_int (P div 12)" and m: "sint (month f) = P mod 12 + 1"
    unfolding P0 by (simp_all add: P_def)
  obtain g1 where g1: "step month_tag f n = Some g1" "canonical g1" "day g1 = 1"
    "hour g1 = hour f" "minute g1 = minute f" "second g1 = second f"
    "year g1 = year f + word_of_int ((P + sint n) div 12)"
    "sint (month g1) = (P + sint n) mod 12 + 1"
    using step_month_tracked [OF c al(1) y m, of n] by blast
  have same: "g = f"
    if g: "day g = 1" "hour g = hour f" "minute g = minute f" "second g = second f"
      "year g = year f + word_of_int (P div 12)" "sint (month g) = P mod 12 + 1" for g
  proof (rule fields_eqI)
    show "sint (year g) = sint (year f)" using g(5) P0 by simp
    show "sint (month g) = sint (month f)" using g(6) m by simp
    show "sint (day g) = sint (day f)" using g(1) al(1) by simp
    show "sint (hour g) = sint (hour f)" using g(2) by simp
    show "sint (minute g) = sint (minute f)" using g(3) by simp
    show "sint (second g) = sint (second f)" using g(4) by simp
  qed
  have p: "op_plus_assign v n = Some (v\<lparr>rep := g1\<rparr>)"
    using g1(1) by (simp add: op_plus_assign_def t f_def)
  show ?thesis
  proof (cases "n = int_min")
    case False
    obtain g2 where g2: "step month_tag g1 (- n) = Some g2" "day g2 = 1"
      "hour g2 = hour g1" "minute g2 = minute g1" "second g2 = second g1"
      "year g2 = year f + word_of_int ((P + sint n + sint (- n)) div 12)"
      "sint (month g2) = (P + sint n + sint (- n)) mod 12 + 1"
      using step_month_tracked [OF g1(2,3,7,8), of "- n"] by blast
    have "g2 = f"
      using g2 g1 by (intro same) (simp_all add: sint_neg [OF False])
    then show ?thesis
      unfolding p using False g2(1)
      by (simp add: op_minus_assign_def t f_def del: step.simps)
  next
    case True
    have m1: "- (n + 1) = (2147483647 :: int32)" "- int_min - 1 = (2147483647 :: int32)"
      unfolding True int_min_def by simp_all
    obtain g2 where g2: "step month_tag g1 2147483647 = Some g2" "canonical g2" "day g2 = 1"
      "hour g2 = hour g1" "minute g2 = minute g1" "second g2 = second g1"
      "year g2 = year f + word_of_int ((P + sint n + sint (2147483647 :: int32)) div 12)"
      "sint (month g2) = (P + sint n + sint (2147483647 :: int32)) mod 12 + 1"
      using step_month_tracked [OF g1(2,3,7,8), of 2147483647] by blast
    obtain g3 where g3: "step month_tag g2 1 = Some g3" "day g3 = 1"
      "hour g3 = hour g2" "minute g3 = minute g2" "second g3 = second g2"
      "year g3 = year f
         + word_of_int ((P + sint n + sint (2147483647 :: int32) + sint (1 :: int32)) div 12)"
      "sint (month g3) = (P + sint n + sint (2147483647 :: int32) + sint (1 :: int32)) mod 12 + 1"
      using step_month_tracked [OF g2(2,3,7,8), of 1] by blast
    have "g3 = f"
      using g3 g2 g1 by (intro same) (simp_all add: True sint_int_min)
    then show ?thesis
      unfolding p using True g2(1) g3(1)
      by (simp add: op_minus_assign_def t f_def m1 del: step.simps)
  qed
qed

lemma roundtrip_safe:
  assumes v: "valid v"
    and s1: "safe (tag_of v) (ordinal (tag_of v) (rep v) + sint n)"
    and s0: "safe (tag_of v) (ordinal (tag_of v) (rep v))"
    and sm: "safe (tag_of v) (ordinal (tag_of v) (rep v) - 1)"
  shows "Option.bind (op_plus_assign v n) (\<lambda>w. op_minus_assign w n) = Some v"
proof -
  obtain w where w: "op_plus_assign v n = Some w" "valid w" "tag_of w = tag_of v"
    "ordinal (tag_of v) (rep w) = ordinal (tag_of v) (rep v) + sint n"
    using op_plus_assign_exact [OF v s1] by blast
  have a: "safe (tag_of w) (ordinal (tag_of w) (rep w) - sint n)"
    unfolding w(3) w(4) using s0 by simp
  have b: "safe (tag_of w) (ordinal (tag_of w) (rep w) - sint n - 1)"
    unfolding w(3) w(4) using sm by simp
  obtain u where u: "op_minus_assign w n = Some u" "valid u" "tag_of u = tag_of w"
    "ordinal (tag_of w) (rep u) = ordinal (tag_of w) (rep w) - sint n"
    using op_minus_assign_exact [OF w(2) a b] by blast
  have "u = v"
    using u(2) v u(3,4) unfolding w(3) w(4) by (intro valid_ordinal_eq) simp_all
  then show ?thesis
    using w(1) u(1) by simp
qed

lemma supported_safe_step:
  assumes s: "supported T k" and T: "T \<noteq> year_tag"
    and j: "- 2147483649 \<le> j" "j \<le> 2147483648"
  shows "safe T (k + j)"
proof (cases T)
  case year_tag
  then show ?thesis using T by simp
next
  case month_tag
  have "- 2218015341 \<le> k + j" "k + j \<le> 2218062620"
    using s j month_tag by (simp_all add: supported_iff)
  then have "(- 2218015341) div 12 \<le> (k + j) div 12" "(k + j) div 12 \<le> 2218062620 div 12"
    by (intro zdiv_mono1; simp)+
  then show ?thesis using month_tag by simp
next
  case day_tag
  then show ?thesis
    using s j by (simp add: supported_iff safe_day_def)
next
  case hour_tag
  have "- 53687095353 \<le> k + j" "k + j \<le> 53687095352"
    using s j hour_tag by (simp_all add: supported_iff)
  then have "(- 53687095353) div 24 \<le> (k + j) div 24" "(k + j) div 24 \<le> 53687095352 div 24"
    by (intro zdiv_mono1; simp)+
  then show ?thesis using hour_tag by (simp add: safe_day_def)
next
  case minute_tag
  have "- 3094524185889 \<le> k + j" "k + j \<le> 3094524185888"
    using s j minute_tag by (simp_all add: supported_iff)
  then have "(- 3094524185889) div 1440 \<le> (k + j) div 1440"
    "(k + j) div 1440 \<le> 3094524185888 div 1440"
    by (intro zdiv_mono1; simp)+
  moreover have "(k + j) div 60 div 24 = (k + j) div 1440"
    by (simp add: zdiv_zmult2_eq [symmetric])
  ultimately show ?thesis using minute_tag by (simp add: safe_day_def)
next
  case second_tag
  have "- 185544749618049 \<le> k + j" "k + j \<le> 185544749618048"
    using s j second_tag by (simp_all add: supported_iff)
  then have "(- 185544749618049) div 86400 \<le> (k + j) div 86400"
    "(k + j) div 86400 \<le> 185544749618048 div 86400"
    by (intro zdiv_mono1; simp)+
  moreover have "(k + j) div 60 div 60 div 24 = (k + j) div 86400"
    by (simp add: zdiv_zmult2_eq [symmetric])
  ultimately show ?thesis using second_tag by (simp add: safe_day_def)
qed

lemma day_ord_wide:
  assumes c: "canonical f"
    and y: "- 2120000000 \<le> sint (year f)" "sint (year f) \<le> 2120000000"
  shows "- 774400000000 \<le> day_ord f" "day_ord f \<le> 774400000000"
proof -
  note cf = canonical_fields [OF c]
  note b = days_from_civil_bounds [OF cf(1,2), of "sint (year f)"]
  define D1 where "D1 = days_from_civil (sint (year f)) (sint (month f)) 1"
  have d: "day_ord f = D1 + sint (day f) - 1"
    unfolding day_ord_def D1_def by (rule dfc_day)
  have w: "146097 * (- 2120000000) \<le> 146097 * sint (year f)"
    "146097 * sint (year f) \<le> 146097 * 2120000000"
    using y by simp_all
  show "- 774400000000 \<le> day_ord f"
  proof (rule ccontr)
    assume "\<not> - 774400000000 \<le> day_ord f"
    then have "D1 \<le> - 774400000000" using cf(3) by (simp add: d)
    then have "400 * (D1 + 719468) \<le> 400 * (- 774400000000 + 719468)" by simp
    then show False using b(1) w(1) by (simp add: D1_def)
  qed
  show "day_ord f \<le> 774400000000"
  proof (rule ccontr)
    assume "\<not> day_ord f \<le> 774400000000"
    then have "774400000000 - 30 \<le> D1" using cf(4) by (simp add: d)
    then have "400 * (774400000000 - 30 + 719468) \<le> 400 * (D1 + 719468)" by simp
    then show False using b(2) w(2) by (simp add: D1_def)
  qed
qed

lemma wide_safe:
  assumes c: "canonical f"
    and y: "- 2120000000 \<le> sint (year f)" "sint (year f) \<le> 2120000000"
    and T: "T \<noteq> year_tag" "T \<noteq> month_tag"
    and j: "- 2147483649 \<le> j" "j \<le> 2147483648"
  shows "safe T (ordinal T f + j)"
proof -
  note cf = canonical_fields [OF c]
  note A = day_ord_wide [OF c y]
  show ?thesis
  proof (cases T)
    case year_tag
    then show ?thesis using T by simp
  next
    case month_tag
    then show ?thesis using T by simp
  next
    case day_tag
    then show ?thesis using A j by (simp add: safe_day_def)
  next
    case hour_tag
    define r where "r = sint (hour f) + j"
    have e: "ordinal hour_tag f + j = 24 * day_ord f + r"
      by (simp add: r_def)
    have "- 2147483649 \<le> r" "r \<le> 2147483671"
      using cf(5,6) j by (simp_all add: r_def)
    then have "(- 2147483649) div 24 \<le> r div 24" "r div 24 \<le> 2147483671 div 24"
      by (intro zdiv_mono1; simp)+
    then show ?thesis
      unfolding hour_tag safe.simps e div_mod_carry(1) [of 24 "day_ord f" r, simplified]
      using A by (simp add: safe_day_def)
  next
    case minute_tag
    define r where "r = sint (hour f) * 60 + sint (minute f) + j"
    have e: "ordinal minute_tag f + j = 1440 * day_ord f + r"
      by (simp add: r_def)
    have "- 2147483649 \<le> r" "r \<le> 2147485087"
      using cf(5,6,7,8) j by (simp_all add: r_def)
    then have "(- 2147483649) div 1440 \<le> r div 1440" "r div 1440 \<le> 2147485087 div 1440"
      by (intro zdiv_mono1; simp)+
    moreover have "(1440 * day_ord f + r) div 60 div 24 = (1440 * day_ord f + r) div 1440"
      by (simp add: zdiv_zmult2_eq [symmetric])
    ultimately show ?thesis
      unfolding minute_tag safe.simps e
      using A div_mod_carry(1) [of 1440 "day_ord f" r] by (simp add: safe_day_def)
  next
    case second_tag
    define r where "r = (sint (hour f) * 60 + sint (minute f)) * 60 + sint (second f) + j"
    have e: "ordinal second_tag f + j = 86400 * day_ord f + r"
      by (simp add: r_def)
    have "- 2147483649 \<le> r" "r \<le> 2147570047"
      using cf(5,6,7,8,9,10) j by (simp_all add: r_def)
    then have "(- 2147483649) div 86400 \<le> r div 86400" "r div 86400 \<le> 2147570047 div 86400"
      by (intro zdiv_mono1; simp)+
    moreover have "(86400 * day_ord f + r) div 60 div 60 div 24 =
        (86400 * day_ord f + r) div 86400"
      by (simp add: zdiv_zmult2_eq [symmetric])
    ultimately show ?thesis
      unfolding second_tag safe.simps e
      using A div_mod_carry(1) [of 86400 "day_ord f" r] by (simp add: safe_day_def)
  qed
qed

lemma minus_assign_int_min:
  "op_minus_assign w int_min =
     Option.bind (op_plus_assign w 2147483647) (\<lambda>u. op_plus_assign u 1)"
proof -
  have m: "- (int_min + 1) = (2147483647 :: int32)"
    by (simp add: int_min_def)
  show ?thesis
    unfolding op_minus_assign_def op_plus_assign_def m
    by (cases "step (tag_of w) (rep w) 2147483647") (simp_all del: step.simps)
qed

text \<open>
  C2 (as amended). For every \<open>int\<close> \<open>n\<close>, \<open>v += n\<close> followed by \<open>-= n\<close> gives back \<open>v\<close>,
  for every value \<open>v\<close> whose year lies between -2120000000 and 2120000000, in
  particular for every \<open>v\<close> in the supported range, and for every \<open>v\<close> of year or month
  alignment. This includes \<open>n = INT_MIN\<close>, where \<open>-=\<close> steps by \<open>-(n + 1) = INT_MAX\<close>
  and then by 1.
\<close>

theorem step_roundtrip:
  "(valid v \<and> - 2120000000 \<le> sint (year (rep v)) \<and> sint (year (rep v)) \<le> 2120000000 \<longrightarrow>
      Option.bind (op_plus_assign v n) (\<lambda>w. op_minus_assign w n) = Some v) \<and>
   (valid v \<and> supported (tag_of v) (ordinal (tag_of v) (rep v)) \<longrightarrow>
      Option.bind (op_plus_assign v n) (\<lambda>w. op_minus_assign w n) = Some v) \<and>
   (valid v \<and> tag_of v = month_tag \<longrightarrow>
      Option.bind (op_plus_assign v n) (\<lambda>w. op_minus_assign w n) = Some v) \<and>
   (tag_of v = year_tag \<longrightarrow>
      Option.bind (op_plus_assign v n) (\<lambda>w. op_minus_assign w n) = Some v) \<and>
   op_minus_assign w int_min =
      Option.bind (op_plus_assign w 2147483647) (\<lambda>u. op_plus_assign u 1)"
proof -
  let ?rt = "Option.bind (op_plus_assign v n) (\<lambda>w. op_minus_assign w n) = Some v"
  note nb = sint_bounds32 [of n]
  have 1: ?rt
    if v: "valid v" and y: "- 2120000000 \<le> sint (year (rep v))"
      "sint (year (rep v)) \<le> 2120000000"
  proof -
    consider "tag_of v = year_tag" | "tag_of v = month_tag"
      | "tag_of v \<noteq> year_tag" "tag_of v \<noteq> month_tag"
      by blast
    then show ?thesis
    proof cases
      case 1
      then show ?thesis by (rule year_roundtrip)
    next
      case 2
      then show ?thesis by (rule month_roundtrip [OF v])
    next
      case 3
      have c: "canonical (rep v)" using v by (simp add: valid_def)
      note s = wide_safe [OF c y 3]
      show ?thesis
        using s [of "sint n"] s [of 0] s [of "- 1"] nb
        by (intro roundtrip_safe [OF v]) simp_all
    qed
  qed
  have 2: ?rt
    if v: "valid v" and s: "supported (tag_of v) (ordinal (tag_of v) (rep v))"
  proof (cases "tag_of v = year_tag")
    case True
    then show ?thesis by (rule year_roundtrip)
  next
    case False
    note s = supported_safe_step [OF s False]
    show ?thesis
      using s [of "sint n"] s [of 0] s [of "- 1"] nb
      by (intro roundtrip_safe [OF v]) simp_all
  qed
  have 3: ?rt if "valid v" "tag_of v = month_tag"
    using that by (rule month_roundtrip)
  have 4: ?rt if "tag_of v = year_tag"
    using that by (rule year_roundtrip)
  have 5: "op_minus_assign w int_min =
      Option.bind (op_plus_assign w 2147483647) (\<lambda>u. op_plus_assign u 1)"
    by (rule minus_assign_int_min)
  show ?thesis
    using 1 2 3 4 5 by blast
qed

theorem step_roundtrip_witness:
  "valid \<lparr>tag_of = month_tag,
      rep = \<lparr>year = 2000, month = 1, day = 1, hour = 0, minute = 0, second = 0\<rparr>\<rparr> \<and>
   supported month_tag (ordinal month_tag
      \<lparr>year = 2000, month = 1, day = 1, hour = 0, minute = 0, second = 0\<rparr>) \<and>
   (- 2120000000 :: int) \<le> sint (2000 :: int32) \<and> sint (2000 :: int32) \<le> (2120000000 :: int) \<and>
   op_plus_assign \<lparr>tag_of = month_tag,
      rep = \<lparr>year = 2000, month = 1, day = 1, hour = 0, minute = 0, second = 0\<rparr>\<rparr> int_min =
   Some \<lparr>tag_of = month_tag,
      rep = \<lparr>year = - 178954971, month = 5, day = 1, hour = 0, minute = 0, second = 0\<rparr>\<rparr> \<and>
   Option.bind
     (op_plus_assign \<lparr>tag_of = month_tag,
        rep = \<lparr>year = 2000, month = 1, day = 1, hour = 0, minute = 0, second = 0\<rparr>\<rparr> int_min)
     (\<lambda>w. op_minus_assign w int_min) =
   Some \<lparr>tag_of = month_tag,
      rep = \<lparr>year = 2000, month = 1, day = 1, hour = 0, minute = 0, second = 0\<rparr>\<rparr> \<and>
   Option.bind
     (op_plus_assign \<lparr>tag_of = year_tag,
        rep = \<lparr>year = 2000, month = 1, day = 1, hour = 0, minute = 0, second = 0\<rparr>\<rparr> int_min)
     (\<lambda>w. op_minus_assign w int_min) =
   Some \<lparr>tag_of = year_tag,
      rep = \<lparr>year = 2000, month = 1, day = 1, hour = 0, minute = 0, second = 0\<rparr>\<rparr> \<and>
   valid \<lparr>tag_of = second_tag,
      rep = \<lparr>year = 5881580, month = 12, day = 31, hour = 23, minute = 59, second = 59\<rparr>\<rparr> \<and>
   supported second_tag (ordinal second_tag
      \<lparr>year = 5881580, month = 12, day = 31, hour = 23, minute = 59, second = 59\<rparr>) \<and>
   \<not> supported second_tag (ordinal second_tag
      \<lparr>year = 5881580, month = 12, day = 31, hour = 23, minute = 59, second = 59\<rparr>
        + sint (2147483647 :: int32)) \<and>
   Option.bind
     (op_plus_assign \<lparr>tag_of = second_tag,
        rep = \<lparr>year = 5881580, month = 12, day = 31, hour = 23, minute = 59, second = 59\<rparr>\<rparr>
        2147483647)
     (\<lambda>w. op_minus_assign w 2147483647) =
   Some \<lparr>tag_of = second_tag,
      rep = \<lparr>year = 5881580, month = 12, day = 31, hour = 23, minute = 59, second = 59\<rparr>\<rparr>"
  (is "valid ?vm \<and> ?sm \<and> ?y1 \<and> ?y2 \<and> ?pm \<and> ?rm \<and> ?ry \<and> valid ?vs \<and> ?ss \<and> ?ns \<and> ?rs")
proof -
  have vm: "valid ?vm"
    by (simp add: valid_def canonical_def canonical_date_def days_in_month_def)
  have om: "ordinal month_tag (rep ?vm) = 24000"
    by simp
  have sm: "supported (tag_of ?vm) (ordinal (tag_of ?vm) (rep ?vm))"
    by (simp add: supported_iff)
  have pm: ?pm
    by code_simp
  have ym: "- 2120000000 \<le> sint (year (rep ?vm))" "sint (year (rep ?vm)) \<le> 2120000000"
    by simp_all
  have rm: ?rm
    using step_roundtrip [of ?vm int_min ?vm] vm sm ym by blast
  have ty: "tag_of \<lparr>tag_of = year_tag,
        rep = \<lparr>year = 2000, month = 1, day = 1, hour = 0, minute = 0, second = 0\<rparr>\<rparr> = year_tag"
    by simp
  have ry: ?ry
    using step_roundtrip [of "\<lparr>tag_of = year_tag,
        rep = \<lparr>year = 2000, month = 1, day = 1, hour = 0, minute = 0, second = 0\<rparr>\<rparr>" int_min ?vm] ty
    by blast
  have vs: "valid ?vs"
    by (simp add: valid_def canonical_def canonical_date_def days_in_month_def)
  have os: "ordinal second_tag (rep ?vs) = 185542602134399"
    by (simp add: day_ord_def days_from_civil_def civil_year_def day_of_civil_year_def)
  have ss: "supported (tag_of ?vs) (ordinal (tag_of ?vs) (rep ?vs))"
    using os by (simp add: supported_iff)
  have ns: ?ns
    using os by (simp add: supported_iff)
  have rs: ?rs
    using step_roundtrip [of ?vs 2147483647 ?vs] vs ss by blast
  show ?thesis
    using vm sm pm rm ry vs ss ns rs by simp
qed

theorem step_roundtrip_counterexample:
  "valid \<lparr>tag_of = day_tag,
      rep = \<lparr>year = - 2147483542, month = 9, day = 21, hour = 0, minute = 0, second = 0\<rparr>\<rparr> \<and>
   make_civil_time day_tag (- 2147483542) 9 21 0 0 0 =
     Some \<lparr>tag_of = day_tag,
       rep = \<lparr>year = - 2147483542, month = 9, day = 21, hour = 0, minute = 0, second = 0\<rparr>\<rparr> \<and>
   Option.bind
     (op_plus_assign \<lparr>tag_of = day_tag,
        rep = \<lparr>year = - 2147483542, month = 9, day = 21, hour = 0, minute = 0, second = 0\<rparr>\<rparr> 1)
     (\<lambda>w. op_minus_assign w 1) =
   Some \<lparr>tag_of = day_tag,
      rep = \<lparr>year = - 2147483542, month = 9, day = 20, hour = 0, minute = 0, second = 0\<rparr>\<rparr> \<and>
   Option.bind
     (op_plus_assign \<lparr>tag_of = day_tag,
        rep = \<lparr>year = - 2147483542, month = 9, day = 21, hour = 0, minute = 0, second = 0\<rparr>\<rparr> 1)
     (\<lambda>w. op_minus_assign w 1) \<noteq>
   Some \<lparr>tag_of = day_tag,
      rep = \<lparr>year = - 2147483542, month = 9, day = 21, hour = 0, minute = 0, second = 0\<rparr>\<rparr>"
  (is "valid ?v \<and> ?m \<and> ?r \<and> ?n")
proof -
  have v: "valid ?v"
    by (simp add: valid_def canonical_def canonical_date_def days_in_month_def)
  have m: ?m
    by code_simp
  have r: ?r
    by code_simp
  have n: ?n
    unfolding r by simp
  show ?thesis using v m r n by blast
qed

section \<open>Exactness of the normalization cascade (C3)\<close>

text \<open>
  C3. For every six 32-bit inputs (the extremes of \<open>int\<close> included) whose exact instant,
  computed over the unbounded integers, lies in the supported year range, the cascade
  returns the canonical tuple of exactly that instant: its second, minute and hour are
  the non-negative remainders of the floored carries, its date is the input date moved
  by the floored day carry, its year is in the supported range, and no other canonical
  tuple denotes that instant.
\<close>

theorem normalization_exact:
  assumes s: "supported second_tag
                (seconds_from_fields (sint y) (sint m) (sint d) (sint hh) (sint mm) (sint ss))"
  shows "\<exists>f. n_sec y m d hh mm ss = Some f \<and> canonical f \<and>
           ordinal second_tag f =
             seconds_from_fields (sint y) (sint m) (sint d) (sint hh) (sint mm) (sint ss) \<and>
           sint (second f) = sint ss mod 60 \<and>
           sint (minute f) = (sint mm + sint ss div 60) mod 60 \<and>
           sint (hour f) = (sint hh + (sint mm + sint ss div 60) div 60) mod 24 \<and>
           day_ord f = days_from_fields (sint y) (sint m) (sint d)
              + (sint hh + (sint mm + sint ss div 60) div 60) div 24 \<and>
           - 5877641 \<le> sint (year f) \<and> sint (year f) \<le> 5881580 \<and>
           (\<forall>g. canonical g \<and> ordinal second_tag g = ordinal second_tag f \<longrightarrow> g = f)"
proof -
  define A where "A = days_from_fields (sint y) (sint m) (sint d)"
  define k where "k = seconds_from_fields (sint y) (sint m) (sint d) (sint hh) (sint mm) (sint ss)"
  have k: "k = ((A * 24 + sint hh) * 60 + sint mm) * 60 + sint ss"
    by (simp add: k_def A_def seconds_from_fields_def)
  note ts = time_split [of A "sint hh" "sint mm" "sint ss"]
  define dd where "dd = A + (sint hh + (sint mm + sint ss div 60) div 60) div 24"
  have kd: "k div 60 div 60 div 24 = dd"
    unfolding k dd_def by (rule ts(1))
  have "safe second_tag k"
    using supported_safe0 [OF s] by (simp add: k_def)
  then have "safe_day dd"
    unfolding safe.simps kd .
  from n_sec_exact [OF this [unfolded dd_def A_def]]
  obtain f where f: "n_sec y m d hh mm ss = Some f" "canonical f"
    and s1: "sint (second f) = sint ss mod 60"
    and s2: "sint (minute f) = (sint mm + sint ss div 60) mod 60"
    and s3: "sint (hour f) = (sint hh + (sint mm + sint ss div 60) div 60) mod 24"
    and s4: "day_ord f = dd"
    unfolding dd_def A_def by blast
  have o: "ordinal second_tag f = k"
    unfolding ordinal.simps s1 s2 s3 s4 dd_def k by (rule ts(2))
  have sd: "supported day_tag dd"
  proof -
    have "- 185542602134400 \<le> k" "k < 185542602134400"
      using s by (simp_all add: supported_iff k_def)
    then have "(- 185542602134400) div 86400 \<le> k div 86400"
      "k div 86400 \<le> 185542602134399 div 86400"
      by (intro zdiv_mono1; simp)+
    moreover have "k div 60 div 60 div 24 = k div 86400"
      by (simp add: zdiv_zmult2_eq [symmetric])
    ultimately show ?thesis
      unfolding kd [symmetric] by (simp add: supported_iff)
  qed
  have yr: "- 5877641 \<le> sint (year f) \<and> sint (year f) \<le> 5881580"
    using sd supported_day_year [OF f(2)] by (simp add: s4)
  have uniq: "\<forall>g. canonical g \<and> ordinal second_tag g = ordinal second_tag f \<longrightarrow> g = f"
    using ordinal_inj [OF _ f(2), of _ second_tag] by auto
  show ?thesis
    using f o s1 s2 s3 s4 yr uniq unfolding k_def dd_def A_def by blast
qed

theorem normalization_exact_witness:
  "supported second_tag
     (seconds_from_fields (sint (173320329 :: int32)) (sint (- 2147483648 :: int32))
        (sint (2147483647 :: int32)) (sint (- 2147483648 :: int32))
        (sint (2147483647 :: int32)) (sint (- 2147483648 :: int32))) \<and>
   n_sec 173320329 (- 2147483648) 2147483647 (- 2147483648) 2147483647 (- 2147483648) =
     Some \<lparr>year = 2000, month = 1, day = 4, hour = 14, minute = 52, second = 52\<rparr> \<and>
   ordinal second_tag \<lparr>year = 2000, month = 1, day = 4, hour = 14, minute = 52, second = 52\<rparr> =
     seconds_from_fields (sint (173320329 :: int32)) (sint (- 2147483648 :: int32))
        (sint (2147483647 :: int32)) (sint (- 2147483648 :: int32))
        (sint (2147483647 :: int32)) (sint (- 2147483648 :: int32))"
  (is "?s \<and> ?r \<and> ?o")
proof -
  have s: ?s
    by (simp add: supported_iff seconds_from_fields_def days_from_fields_def days_from_civil_def
          civil_year_def day_of_civil_year_def)
  have r: ?r
    by code_simp
  from normalization_exact [OF s] s r
  show ?thesis by auto
qed

section \<open>Comparison (C4)\<close>

lemma op_lt_lex: "op_lt a b \<longleftrightarrow> lex_less (field_tuple a) (field_tuple b)"
  by (simp add: op_lt_def field_tuple_def word_sless_alt word_eq_iff_signed [where ?'a = int])

lemma op_eq_tuple: "op_eq a b \<longleftrightarrow> field_tuple a = field_tuple b"
  by (simp add: op_eq_def field_tuple_def word_eq_iff_signed [where ?'a = int])

lemma lex_less_trichotomy:
  assumes "length xs = length ys"
  shows "(lex_less xs ys \<and> xs \<noteq> ys \<and> \<not> lex_less ys xs) \<or>
         (\<not> lex_less xs ys \<and> xs = ys \<and> \<not> lex_less ys xs) \<or>
         (\<not> lex_less xs ys \<and> xs \<noteq> ys \<and> lex_less ys xs)"
  using assms
proof (induction xs ys rule: list_induct2)
  case Nil
  then show ?case by simp
next
  case (Cons x xs y ys)
  then show ?case by (cases "x < y"; cases "x = y") auto
qed

lemma lex_less_trans:
  assumes "lex_less xs ys" "lex_less ys zs"
  shows "lex_less xs zs"
  using assms
proof (induction xs ys arbitrary: zs rule: lex_less.induct)
  case (1 a as b bs)
  then obtain c cs where zs: "zs = c # cs" by (cases zs) auto
  show ?case using 1 unfolding zs by auto
qed simp_all

text \<open>
  C4. The relational operators compare the stored six-field tuples of two values of any
  alignments lexicographically, year first and second last; the alignment tags are not
  read. The order is total: exactly one of \<open>a < b\<close>, \<open>a == b\<close>, \<open>b < a\<close> holds, \<open><\<close> is
  transitive, and \<open><=\<close>, \<open>>=\<close>, \<open>>\<close>, \<open>!=\<close> agree with \<open><\<close> and \<open>==\<close>.
\<close>

theorem relational_operators_total_order:
  "(op_lt a b \<longleftrightarrow> lex_less (field_tuple a) (field_tuple b)) \<and>
   (op_eq a b \<longleftrightarrow> field_tuple a = field_tuple b) \<and>
   ((op_lt a b \<and> \<not> op_eq a b \<and> \<not> op_lt b a) \<or>
    (\<not> op_lt a b \<and> op_eq a b \<and> \<not> op_lt b a) \<or>
    (\<not> op_lt a b \<and> \<not> op_eq a b \<and> op_lt b a)) \<and>
   (op_lt a b \<and> op_lt b c \<longrightarrow> op_lt a c) \<and>
   (op_le a b \<longleftrightarrow> op_lt a b \<or> op_eq a b) \<and>
   (op_ge a b \<longleftrightarrow> op_lt b a \<or> op_eq a b) \<and>
   (op_gt a b \<longleftrightarrow> op_lt b a) \<and>
   (op_ne a b \<longleftrightarrow> \<not> op_eq a b)"
proof -
  have len: "length (field_tuple a) = length (field_tuple b)"
    by (simp add: field_tuple_def)
  note tri = lex_less_trichotomy [OF len, folded op_lt_lex op_eq_tuple]
  have trans: "op_lt a b \<and> op_lt b c \<longrightarrow> op_lt a c"
    unfolding op_lt_lex using lex_less_trans by blast
  show ?thesis
    using tri trans
    by (simp add: op_lt_lex [symmetric] op_eq_tuple [symmetric] op_le_def op_ge_def op_gt_def
          op_ne_def) blast
qed

theorem relational_operators_total_order_witness:
  "op_lt
     \<lparr>tag_of = day_tag,
      rep = \<lparr>year = 2000, month = 1, day = 1, hour = 0, minute = 0, second = 0\<rparr>\<rparr>
     \<lparr>tag_of = second_tag,
      rep = \<lparr>year = 2000, month = 1, day = 1, hour = 0, minute = 0, second = 1\<rparr>\<rparr> \<and>
   op_lt
     \<lparr>tag_of = second_tag,
      rep = \<lparr>year = 2000, month = 1, day = 1, hour = 0, minute = 0, second = 1\<rparr>\<rparr>
     \<lparr>tag_of = month_tag,
      rep = \<lparr>year = 2000, month = 2, day = 1, hour = 0, minute = 0, second = 0\<rparr>\<rparr> \<and>
   op_lt
     \<lparr>tag_of = day_tag,
      rep = \<lparr>year = 2000, month = 1, day = 1, hour = 0, minute = 0, second = 0\<rparr>\<rparr>
     \<lparr>tag_of = month_tag,
      rep = \<lparr>year = 2000, month = 2, day = 1, hour = 0, minute = 0, second = 0\<rparr>\<rparr>"
  (is "op_lt ?a ?b \<and> op_lt ?b ?c \<and> op_lt ?a ?c")
proof -
  have ab: "op_lt ?a ?b" and bc: "op_lt ?b ?c"
    by (simp_all add: op_lt_def word_sless_alt)
  from relational_operators_total_order [of ?a ?b ?c]
  have "op_lt ?a ?b \<and> op_lt ?b ?c \<longrightarrow> op_lt ?a ?c"
    by blast
  with ab bc show ?thesis by blast
qed

section \<open>Difference of day-aligned values (C5)\<close>

text \<open>
  C5. The difference of two day-aligned values is \<open>ymd_ord\<close> of the first minus
  \<open>ymd_ord\<close> of the second. For a normalized date, \<open>ymd_ord\<close> is the day ordinal of the
  specification -- January and February counted in the previous civil year, the era
  the group of 400 years, \<open>era * 146097 + day_of_era - 719468\<close> -- reduced to 32 bits,
  and 1970-01-01 is day 0.
\<close>

theorem day_difference_is_ordinal_difference:
  "difference day_tag f1 f2 =
     ymd_ord (year f1) (month f1) (day f1) - ymd_ord (year f2) (month f2) (day f2) \<and>
   (tag_of a = day_tag \<longrightarrow>
      op_diff a b = ymd_ord (year (rep a)) (month (rep a)) (day (rep a))
                    - ymd_ord (year (rep b)) (month (rep b)) (day (rep b))) \<and>
   ymd_ord 1970 1 1 = 0 \<and>
   days_from_civil 1970 1 1 = 0 \<and>
   (1 \<le> sint m \<and> sint m \<le> 12 \<and> - 2147483248 \<le> sint y \<longrightarrow>
      ymd_ord y m d = word_of_int (days_from_civil (sint y) (sint m) (sint d))) \<and>
   (valid a \<and> valid b \<and> tag_of a = day_tag \<and>
    supported day_tag (day_ord (rep a)) \<and> supported day_tag (day_ord (rep b)) \<and>
    - 2147483648 \<le> day_ord (rep a) - day_ord (rep b) \<and>
    day_ord (rep a) - day_ord (rep b) \<le> 2147483647 \<longrightarrow>
      sint (op_diff a b) = day_ord (rep a) - day_ord (rep b))"
proof -
  have 1: "difference day_tag f1 f2 =
     ymd_ord (year f1) (month f1) (day f1) - ymd_ord (year f2) (month f2) (day f2)"
    by simp
  have 2: "tag_of a = day_tag \<longrightarrow>
      op_diff a b = ymd_ord (year (rep a)) (month (rep a)) (day (rep a))
                    - ymd_ord (year (rep b)) (month (rep b)) (day (rep b))"
    by (simp add: op_diff_def)
  have 4: "days_from_civil 1970 1 1 = 0"
    by (simp add: days_from_civil_def civil_year_def day_of_civil_year_def)
  have 3: "ymd_ord 1970 1 1 = 0"
    using ymd_ord_exact [of 1 1970 1] 4 by simp
  have 5: "1 \<le> sint m \<and> sint m \<le> 12 \<and> - 2147483248 \<le> sint y \<longrightarrow>
      ymd_ord y m d = word_of_int (days_from_civil (sint y) (sint m) (sint d))"
    using ymd_ord_exact by blast
  have 6: "sint (op_diff a b) = day_ord (rep a) - day_ord (rep b)"
    if va: "valid a" and vb: "valid b" and t: "tag_of a = day_tag"
      and sa: "supported day_tag (day_ord (rep a))" and sb: "supported day_tag (day_ord (rep b))"
      and lo: "- 2147483648 \<le> day_ord (rep a) - day_ord (rep b)"
      and hi: "day_ord (rep a) - day_ord (rep b) \<le> 2147483647"
  proof -
    have ca: "canonical (rep a)" and cb: "canonical (rep b)"
      using va vb by (simp_all add: valid_def)
    note fa = canonical_fields [OF ca] and fb = canonical_fields [OF cb]
    have ya: "- 2147483248 \<le> sint (year (rep a))" and yb: "- 2147483248 \<le> sint (year (rep b))"
      using sa sb supported_day_year [OF ca] supported_day_year [OF cb] by simp_all
    have "op_diff a b = word_of_int (day_ord (rep a)) - word_of_int (day_ord (rep b))"
      unfolding op_diff_def t difference.simps
        ymd_ord_exact [OF fa(1,2) ya] ymd_ord_exact [OF fb(1,2) yb] day_ord_def ..
    then have "op_diff a b = word_of_int (day_ord (rep a) - day_ord (rep b))"
      by simp
    then show ?thesis
      using sint_of_int_eq32 [of "day_ord (rep a) - day_ord (rep b)"] lo hi by simp
  qed
  show ?thesis
    using 1 2 3 4 5 6 by blast
qed

theorem day_difference_is_ordinal_difference_witness:
  "valid \<lparr>tag_of = day_tag,
      rep = \<lparr>year = 2000, month = 3, day = 1, hour = 0, minute = 0, second = 0\<rparr>\<rparr> \<and>
   valid \<lparr>tag_of = day_tag,
      rep = \<lparr>year = 1970, month = 1, day = 1, hour = 0, minute = 0, second = 0\<rparr>\<rparr> \<and>
   supported day_tag (day_ord
      \<lparr>year = 2000, month = 3, day = 1, hour = 0, minute = 0, second = 0\<rparr>) \<and>
   supported day_tag (day_ord
      \<lparr>year = 1970, month = 1, day = 1, hour = 0, minute = 0, second = 0\<rparr>) \<and>
   (1::int) \<le> sint (3::int32) \<and> sint (3::int32) \<le> (12::int) \<and>
   (- 2147483248::int) \<le> sint (2000::int32) \<and>
   ymd_ord 2000 3 1 = word_of_int (days_from_civil 2000 3 1) \<and>
   days_from_civil 2000 3 1 = 11017 \<and>
   sint (op_diff
     \<lparr>tag_of = day_tag,
        rep = \<lparr>year = 2000, month = 3, day = 1, hour = 0, minute = 0, second = 0\<rparr>\<rparr>
     \<lparr>tag_of = day_tag,
        rep = \<lparr>year = 1970, month = 1, day = 1, hour = 0, minute = 0, second = 0\<rparr>\<rparr>) = 11017"
  (is "valid ?a \<and> valid ?b \<and> ?sa \<and> ?sb \<and> ?m1 \<and> ?m2 \<and> ?y \<and> ?e \<and> ?n \<and> ?r")
proof -
  have oa: "day_ord (rep ?a) = 11017" and ob: "day_ord (rep ?b) = 0"
    by (simp_all add: day_ord_def days_from_civil_def civil_year_def day_of_civil_year_def)
  have n: ?n
    by (simp add: days_from_civil_def civil_year_def day_of_civil_year_def)
  have va: "valid ?a" and vb: "valid ?b"
    by (simp_all add: valid_def canonical_def canonical_date_def days_in_month_def leap_year_def)
  have sa: "supported day_tag (day_ord (rep ?a))" and sb: "supported day_tag (day_ord (rep ?b))"
    unfolding oa ob by (simp_all add: supported_iff)
  have m: "(1::int) \<le> sint (3::int32)" "sint (3::int32) \<le> (12::int)"
    "(- 2147483248::int) \<le> sint (2000::int32)"
    by simp_all
  note inst = day_difference_is_ordinal_difference [of "rep ?a" "rep ?b" ?a ?b 3 2000 1]
  have e: "ymd_ord 2000 3 1 = word_of_int (days_from_civil (sint (2000::int32)) (sint (3::int32)) (sint (1::int32)))"
    using inst m by blast
  have t: "tag_of ?a = day_tag"
    by simp
  have d: "- 2147483648 \<le> day_ord (rep ?a) - day_ord (rep ?b)"
    "day_ord (rep ?a) - day_ord (rep ?b) \<le> 2147483647"
    unfolding oa ob by simp_all
  have "sint (op_diff ?a ?b) = day_ord (rep ?a) - day_ord (rep ?b)"
    using inst va vb t sa sb d by blast
  then have r: ?r
    unfolding oa ob by simp
  show ?thesis
    using va vb sa sb m e n r by simp
qed

section \<open>Composition of steps (C6)\<close>

text \<open>
  C6. For a value \<open>a\<close> of any alignment and ints \<open>n\<close>, \<open>m\<close> whose sum is representable,
  if \<open>a\<close> stepped by \<open>n\<close> and then by \<open>m\<close> stays in the supported range, the two steps
  give the same value as the single step by \<open>n + m\<close>.
\<close>

theorem step_compose:
  assumes v: "valid a"
    and nm: "- 2147483648 \<le> sint n + sint m" "sint n + sint m \<le> 2147483647"
    and s1: "supported (tag_of a) (ordinal (tag_of a) (rep a) + sint n)"
    and s2: "supported (tag_of a) (ordinal (tag_of a) (rep a) + sint n + sint m)"
  shows "Option.bind (op_plus_assign a n) (\<lambda>b. op_plus_assign b m) = op_plus_assign a (n + m)"
proof -
  obtain b where b: "op_plus_assign a n = Some b" "valid b" "tag_of b = tag_of a"
    "ordinal (tag_of a) (rep b) = ordinal (tag_of a) (rep a) + sint n"
    using op_plus_assign_exact [OF v supported_safe0 [OF s1]] by blast
  have "safe (tag_of b) (ordinal (tag_of b) (rep b) + sint m)"
    unfolding b(3) b(4) by (rule supported_safe0 [OF s2])
  from op_plus_assign_exact [OF b(2) this]
  obtain c where c: "op_plus_assign b m = Some c" "valid c" "tag_of c = tag_of a"
    "ordinal (tag_of a) (rep c) = ordinal (tag_of a) (rep a) + sint n + sint m"
    unfolding b(3) b(4) by blast
  have sum: "sint (n + m) = sint n + sint m"
    using nm by (intro sint_add32) simp_all
  have "safe (tag_of a) (ordinal (tag_of a) (rep a) + sint (n + m))"
    unfolding sum using supported_safe0 [OF s2] by (simp add: add.assoc)
  from op_plus_assign_exact [OF v this]
  obtain e where e: "op_plus_assign a (n + m) = Some e" "valid e" "tag_of e = tag_of a"
    "ordinal (tag_of a) (rep e) = ordinal (tag_of a) (rep a) + sint n + sint m"
    unfolding sum by (auto simp: add.assoc)
  have "c = e"
    using c e by (intro valid_ordinal_eq) simp_all
  then show ?thesis
    using b(1) c(1) e(1) by simp
qed

theorem step_compose_witness:
  "valid \<lparr>tag_of = hour_tag,
      rep = \<lparr>year = 2015, month = 12, day = 31, hour = 23, minute = 0, second = 0\<rparr>\<rparr> \<and>
   - 2147483648 \<le> sint (100000 :: int32) + sint (- 250000 :: int32) \<and>
   sint (100000 :: int32) + sint (- 250000 :: int32) \<le> 2147483647 \<and>
   Option.bind
     (op_plus_assign \<lparr>tag_of = hour_tag,
        rep = \<lparr>year = 2015, month = 12, day = 31, hour = 23, minute = 0, second = 0\<rparr>\<rparr> 100000)
     (\<lambda>b. op_plus_assign b (- 250000)) =
   op_plus_assign \<lparr>tag_of = hour_tag,
        rep = \<lparr>year = 2015, month = 12, day = 31, hour = 23, minute = 0, second = 0\<rparr>\<rparr>
     (100000 + (- 250000))"
  (is "valid ?a \<and> ?l \<and> ?u \<and> ?r")
proof -
  have v: "valid ?a"
    by (simp add: valid_def canonical_def canonical_date_def days_in_month_def)
  have o: "ordinal (tag_of ?a) (rep ?a) = 403223"
    by (simp add: day_ord_def days_from_civil_def civil_year_def day_of_civil_year_def)
  have nm: "- 2147483648 \<le> sint (100000 :: int32) + sint (- 250000 :: int32)"
    "sint (100000 :: int32) + sint (- 250000 :: int32) \<le> 2147483647"
    by simp_all
  have s1: "supported (tag_of ?a) (ordinal (tag_of ?a) (rep ?a) + sint (100000 :: int32))"
    unfolding o by (simp add: supported_iff)
  have s2: "supported (tag_of ?a) (ordinal (tag_of ?a) (rep ?a) + sint (100000 :: int32)
      + sint (- 250000 :: int32))"
    unfolding o by (simp add: supported_iff)
  from step_compose [OF v nm s1 s2] v nm
  show ?thesis by blast
qed

section \<open>Leap days and days past the end of a month (C7)\<close>

lemma make_civil_time_valid:
  "\<exists>v. make_civil_time T y m d hh mm ss = Some v \<and> valid v \<and> tag_of v = T"
proof -
  obtain f where f: "n_sec y m d hh mm ss = Some f" "canonical f"
    using n_sec_canonical by blast
  then show ?thesis
    by (simp add: make_civil_time_def from_fields_def valid_def align_canonical align_aligned)
qed

lemma next_month_date:
  assumes m: "1 \<le> M" "M \<le> 12"
    and d: "days_in_month Y M < D" "D \<le> days_in_month Y M + 28"
  shows "canonical_date (if M = 12 then Y + 1 else Y) (if M = 12 then 1 else M + 1)
           (D - days_in_month Y M)"
    and "days_from_civil (if M = 12 then Y + 1 else Y) (if M = 12 then 1 else M + 1)
           (D - days_in_month Y M) = days_from_civil Y M D"
proof -
  show "canonical_date (if M = 12 then Y + 1 else Y) (if M = 12 then 1 else M + 1)
           (D - days_in_month Y M)"
    using m d days_in_month_bounds(1) [of "if M = 12 then Y + 1 else Y" "if M = 12 then 1 else M + 1"]
    by (simp add: canonical_date_def)
  show "days_from_civil (if M = 12 then Y + 1 else Y) (if M = 12 then 1 else M + 1)
           (D - days_in_month Y M) = days_from_civil Y M D"
  proof (cases "M = 12")
    case True
    then show ?thesis
      using dfc_december_step [of Y D] by (simp add: days_in_month_def)
  next
    case False
    then show ?thesis
      using dfc_month_step [of M Y D] m by simp
  qed
qed

lemma day_carry:
  assumes m: "1 \<le> sint m" "sint m \<le> 12"
    and y: "- 5877641 \<le> sint y" "sint y \<le> 5881580"
    and d: "days_in_month (sint y) (sint m) < sint d"
      "sint d \<le> days_in_month (sint y) (sint m) + 28"
  shows "\<exists>v. make_civil_time day_tag y m d 0 0 0 = Some v \<and> valid v \<and>
           sint (year (rep v)) = (if sint m = 12 then sint y + 1 else sint y) \<and>
           sint (month (rep v)) = (if sint m = 12 then 1 else sint m + 1) \<and>
           sint (day (rep v)) = sint d - days_in_month (sint y) (sint m)"
proof -
  define Y M D where "Y = sint y" and "M = sint m" and "D = sint d"
  have c1: "canonical_date Y M 1"
    using m days_in_month_bounds(1) [of Y M] by (simp add: canonical_date_def Y_def M_def)
  have lo: "days_from_civil (- 5877641) 1 1 = - 2147483821"
    and hi: "days_from_civil 5881581 1 1 = 2147483821"
    by (simp_all add: days_from_civil_def civil_year_def day_of_civil_year_def)
  have "- 2147483821 \<le> days_from_civil Y M 1"
    using canonical_year_range [OF c1, of "- 5877641"] y(1) by (simp add: lo Y_def)
  moreover have "days_from_civil Y M 1 < 2147483821"
    using canonical_year_range [OF c1, of 5881581] y(2) by (simp add: hi Y_def)
  moreover have "1 \<le> D" "D \<le> 59"
    using d days_in_month_bounds [of Y M] by (simp_all add: Y_def M_def D_def)
  ultimately have "safe_day (days_from_civil Y M D)"
    unfolding dfc_day [of Y M D] by (simp add: safe_day_def)
  then have "safe_day (days_from_fields (sint y) (sint m) (sint d)
                 + (sint (0::int32) + (sint (0::int32) + sint (0::int32) div 60) div 60) div 24)"
    using days_from_fields_canonical [OF m] by (simp add: Y_def M_def D_def)
  from n_sec_exact [OF this]
  obtain f where f: "n_sec y m d 0 0 0 = Some f" "canonical f"
    "sint (second f) = 0" "sint (minute f) = 0" "sint (hour f) = 0"
    "day_ord f = days_from_civil Y M D"
    using days_from_fields_canonical [OF m] by (auto simp: Y_def M_def D_def)
  have al: "aligned day_tag f"
    using f(3,4,5) by (simp add: signed_eq_0_iff)
  note nm = next_month_date [of M Y D, OF m [folded M_def] d [folded Y_def M_def D_def]]
  have "days_from_civil (sint (year f)) (sint (month f)) (sint (day f)) =
      days_from_civil (if M = 12 then Y + 1 else Y) (if M = 12 then 1 else M + 1)
           (D - days_in_month Y M)"
    using f(6) nm(2) by (simp add: day_ord_def)
  from days_from_civil_inj [OF canonical_fields(11) [OF f(2)] nm(1) this]
  have r: "sint (year f) = (if M = 12 then Y + 1 else Y)"
    "sint (month f) = (if M = 12 then 1 else M + 1)"
    "sint (day f) = D - days_in_month Y M"
    by simp_all
  have "from_fields day_tag f = \<lparr>tag_of = day_tag, rep = f\<rparr>"
    unfolding from_fields_def align_id [OF al] ..
  then have "make_civil_time day_tag y m d 0 0 0 = Some \<lparr>tag_of = day_tag, rep = f\<rparr>"
    unfolding make_civil_time_def f(1) by simp
  moreover have "valid \<lparr>tag_of = day_tag, rep = f\<rparr>"
    using f(2) al by (simp add: valid_def)
  ultimately show ?thesis
    using r by (simp add: Y_def M_def D_def)
qed

text \<open>
  C7. \<open>civil_day(2000, 2, 29)\<close> is stored as given and is \<open>civil_day(2000, 2, 28) + 1\<close>: 2000
  is a leap year. \<open>civil_day(1900, 2, 29)\<close> becomes 1900-03-01: 1900, divisible by 100
  and not by 400, is not a leap year. The constructor never fails: for all fields it
  returns a value with canonical, aligned fields; and in the supported years a day
  field up to 28 days past the end of its month is carried into the next month.
\<close>

theorem leap_day_carry:
  "make_civil_time day_tag 2000 2 29 0 0 0 =
     Some \<lparr>tag_of = day_tag,
       rep = \<lparr>year = 2000, month = 2, day = 29, hour = 0, minute = 0, second = 0\<rparr>\<rparr> \<and>
   valid \<lparr>tag_of = day_tag,
       rep = \<lparr>year = 2000, month = 2, day = 29, hour = 0, minute = 0, second = 0\<rparr>\<rparr> \<and>
   Option.bind (make_civil_time day_tag 2000 2 28 0 0 0) (\<lambda>a. op_plus a 1) =
     make_civil_time day_tag 2000 2 29 0 0 0 \<and>
   is_leap_year 2000 \<and>
   make_civil_time day_tag 1900 2 29 0 0 0 =
     Some \<lparr>tag_of = day_tag,
       rep = \<lparr>year = 1900, month = 3, day = 1, hour = 0, minute = 0, second = 0\<rparr>\<rparr> \<and>
   \<not> is_leap_year 1900 \<and> c_mod 1900 100 = 0 \<and> c_mod 1900 400 \<noteq> 0 \<and>
   days_per_month 2000 2 = Some 29 \<and> days_per_month 1900 2 = Some 28 \<and>
   (\<exists>v. make_civil_time T y m d hh mm ss = Some v \<and> valid v \<and> tag_of v = T) \<and>
   (1 \<le> sint m \<and> sint m \<le> 12 \<and> - 5877641 \<le> sint y \<and> sint y \<le> 5881580 \<and>
    days_in_month (sint y) (sint m) < sint d \<and>
    sint d \<le> days_in_month (sint y) (sint m) + 28 \<longrightarrow>
      (\<exists>v. make_civil_time day_tag y m d 0 0 0 = Some v \<and> valid v \<and>
           sint (year (rep v)) = (if sint m = 12 then sint y + 1 else sint y) \<and>
           sint (month (rep v)) = (if sint m = 12 then 1 else sint m + 1) \<and>
           sint (day (rep v)) = sint d - days_in_month (sint y) (sint m)))"
proof -
  have 1: "make_civil_time day_tag 2000 2 29 0 0 0 =
     Some \<lparr>tag_of = day_tag,
       rep = \<lparr>year = 2000, month = 2, day = 29, hour = 0, minute = 0, second = 0\<rparr>\<rparr>"
    by code_simp
  have 2: "valid \<lparr>tag_of = day_tag,
       rep = \<lparr>year = 2000, month = 2, day = 29, hour = 0, minute = 0, second = 0\<rparr>\<rparr>"
    by (simp add: valid_def canonical_def canonical_date_def days_in_month_def leap_year_def)
  have 3: "Option.bind (make_civil_time day_tag 2000 2 28 0 0 0) (\<lambda>a. op_plus a 1) =
     make_civil_time day_tag 2000 2 29 0 0 0"
    unfolding 1 by code_simp
  have 4: "is_leap_year 2000" "\<not> is_leap_year 1900" "c_mod 1900 100 = 0" "c_mod 1900 400 \<noteq> 0"
    by code_simp+
  have 5: "make_civil_time day_tag 1900 2 29 0 0 0 =
     Some \<lparr>tag_of = day_tag,
       rep = \<lparr>year = 1900, month = 3, day = 1, hour = 0, minute = 0, second = 0\<rparr>\<rparr>"
    by code_simp
  have 6: "days_per_month 2000 2 = Some 29" "days_per_month 1900 2 = Some 28"
    by code_simp+
  have 7: "\<exists>v. make_civil_time T y m d hh mm ss = Some v \<and> valid v \<and> tag_of v = T"
    by (rule make_civil_time_valid)
  have 8: "\<exists>v. make_civil_time day_tag y m d 0 0 0 = Some v \<and> valid v \<and>
           sint (year (rep v)) = (if sint m = 12 then sint y + 1 else sint y) \<and>
           sint (month (rep v)) = (if sint m = 12 then 1 else sint m + 1) \<and>
           sint (day (rep v)) = sint d - days_in_month (sint y) (sint m)"
    if "1 \<le> sint m" "sint m \<le> 12" "- 5877641 \<le> sint y" "sint y \<le> 5881580"
      "days_in_month (sint y) (sint m) < sint d"
      "sint d \<le> days_in_month (sint y) (sint m) + 28"
    using that by (rule day_carry)
  show ?thesis
    using 1 2 3 4 5 6 7 8 by blast
qed

theorem leap_day_carry_witness:
  "(1::int) \<le> sint (2::int32) \<and> sint (2::int32) \<le> (12::int) \<and>
   (- 5877641::int) \<le> sint (1900::int32) \<and> sint (1900::int32) \<le> (5881580::int) \<and>
   days_in_month (sint (1900::int32)) (sint (2::int32)) < sint (29::int32) \<and>
   sint (29::int32) \<le> days_in_month (sint (1900::int32)) (sint (2::int32)) + 28 \<and>
   (\<exists>v. make_civil_time day_tag 1900 2 29 0 0 0 = Some v \<and> valid v \<and>
        sint (year (rep v)) = 1900 \<and> sint (month (rep v)) = 3 \<and> sint (day (rep v)) = 1)"
proof -
  have h: "(1::int) \<le> sint (2::int32)" "sint (2::int32) \<le> (12::int)"
    "(- 5877641::int) \<le> sint (1900::int32)" "sint (1900::int32) \<le> (5881580::int)"
    "days_in_month (sint (1900::int32)) (sint (2::int32)) < sint (29::int32)"
    "sint (29::int32) \<le> days_in_month (sint (1900::int32)) (sint (2::int32)) + 28"
    by (simp_all add: days_in_month_def leap_year_def)
  note inst = leap_day_carry [of day_tag 1900 2 29 0 0 0]
  have "\<exists>v. make_civil_time day_tag 1900 2 29 0 0 0 = Some v \<and> valid v \<and>
           sint (year (rep v)) = (if sint (2::int32) = 12 then sint (1900::int32) + 1 else sint (1900::int32)) \<and>
           sint (month (rep v)) = (if sint (2::int32) = 12 then 1 else sint (2::int32) + 1) \<and>
           sint (day (rep v)) = sint (29::int32) - days_in_month (sint (1900::int32)) (sint (2::int32))"
    using inst h by blast
  then have "\<exists>v. make_civil_time day_tag 1900 2 29 0 0 0 = Some v \<and> valid v \<and>
        sint (year (rep v)) = 1900 \<and> sint (month (rep v)) = 3 \<and> sint (day (rep v)) = 1"
    by (simp add: days_in_month_def leap_year_def)
  then show ?thesis
    using h by blast
qed

section \<open>Months carried into years (C8)\<close>

lemma n_sec_date_only: "n_sec y m d 0 0 0 = n_mon y m d 0 0 0 0"
  by (simp add: n_sec_def n_min_def n_hour_def c_div_def c_mod_def)

lemma month_word_range:
  "1 \<le> sint (word_of_int ((M - 1) mod 12 + 1) :: int32)"
  "sint (word_of_int ((M - 1) mod 12 + 1) :: int32) \<le> 12"
proof -
  have "0 \<le> (M - 1) mod 12" "(M - 1) mod 12 < 12" by simp_all
  then show "1 \<le> sint (word_of_int ((M - 1) mod 12 + 1) :: int32)"
    "sint (word_of_int ((M - 1) mod 12 + 1) :: int32) \<le> 12"
    unfolding sint_month_word by linarith+
qed

lemma n_mon_first_day:
  "n_mon y m 1 0 hh mm ss =
     Some \<lparr>year = y + word_of_int ((sint m - 1) div 12),
            month = word_of_int ((sint m - 1) mod 12 + 1),
            day = 1, hour = hh, minute = mm, second = ss\<rparr>"
proof -
  have "canonical_date (sint (y + word_of_int ((sint m - 1) div 12)))
          (sint (word_of_int ((sint m - 1) mod 12 + 1) :: int32)) (sint (1::int32))"
    using month_word_range [of "sint m"]
      days_in_month_bounds(1) [of "sint (y + word_of_int ((sint m - 1) div 12))"
        "sint (word_of_int ((sint m - 1) mod 12 + 1) :: int32)"]
    by (simp add: canonical_date_def)
  then show ?thesis
    unfolding n_mon_alt by (rule n_day_id)
qed

text \<open>
  C8. For every value of the month field, \<open>n_mon\<close> hands to the day stage the year
  \<open>year + floor ((month - 1) / 12)\<close>, reduced to 32 bits, and the month
  \<open>(month - 1) mod 12 + 1\<close>, which lies between 1 and 12; division and remainder are the
  floored ones of the integers. The year read back is \<open>year + floor ((month - 1) / 12)\<close>
  whenever that is representable. A month-aligned value constructed from a year and a
  month has these two as its year and month, and \<open>civil_month(2015, 13)\<close> is
  \<open>civil_month(2016, 1)\<close>.
\<close>

theorem month_normalization_floor:
  "n_mon y m d cd hh mm ss =
     n_day (y + word_of_int ((sint m - 1) div 12)) (word_of_int ((sint m - 1) mod 12 + 1))
       d cd hh mm ss \<and>
   sint (word_of_int ((sint m - 1) mod 12 + 1) :: int32) = (sint m - 1) mod 12 + 1 \<and>
   1 \<le> (sint m - 1) mod 12 + 1 \<and> (sint m - 1) mod 12 + 1 \<le> 12 \<and>
   (- 2147483648 \<le> sint y + (sint m - 1) div 12 \<and> sint y + (sint m - 1) div 12 < 2147483648
      \<longrightarrow> sint (y + word_of_int ((sint m - 1) div 12)) = sint y + (sint m - 1) div 12) \<and>
   make_civil_time month_tag y m 1 0 0 0 =
     Some \<lparr>tag_of = month_tag,
       rep = \<lparr>year = y + word_of_int ((sint m - 1) div 12),
              month = word_of_int ((sint m - 1) mod 12 + 1),
              day = 1, hour = 0, minute = 0, second = 0\<rparr>\<rparr> \<and>
   make_civil_time month_tag 2015 13 1 0 0 0 =
     Some \<lparr>tag_of = month_tag,
       rep = \<lparr>year = 2016, month = 1, day = 1, hour = 0, minute = 0, second = 0\<rparr>\<rparr> \<and>
   make_civil_time month_tag 2015 13 1 0 0 0 = make_civil_time month_tag 2016 1 1 0 0 0"
proof -
  have 1: "n_mon y m d cd hh mm ss =
     n_day (y + word_of_int ((sint m - 1) div 12)) (word_of_int ((sint m - 1) mod 12 + 1))
       d cd hh mm ss"
    by (rule n_mon_alt)
  have 2: "sint (word_of_int ((sint m - 1) mod 12 + 1) :: int32) = (sint m - 1) mod 12 + 1"
    by (rule sint_month_word)
  have 3: "1 \<le> (sint m - 1) mod 12 + 1" "(sint m - 1) mod 12 + 1 \<le> 12"
    using month_word_range [of "sint m"] unfolding sint_month_word .
  have 4: "sint (y + word_of_int ((sint m - 1) div 12)) = sint y + (sint m - 1) div 12"
    if "- 2147483648 \<le> sint y + (sint m - 1) div 12"
      and "sint y + (sint m - 1) div 12 < 2147483648"
  proof -
    have "y + word_of_int ((sint m - 1) div 12) = word_of_int (sint y + (sint m - 1) div 12)"
      by simp
    then show ?thesis
      using sint_of_int_eq32 [OF that] by simp
  qed
  have 5: "make_civil_time month_tag y m 1 0 0 0 =
     Some \<lparr>tag_of = month_tag,
       rep = \<lparr>year = y + word_of_int ((sint m - 1) div 12),
              month = word_of_int ((sint m - 1) mod 12 + 1),
              day = 1, hour = 0, minute = 0, second = 0\<rparr>\<rparr>"
    by (simp add: make_civil_time_def n_sec_date_only n_mon_first_day from_fields_def)
  have 6: "make_civil_time month_tag 2015 13 1 0 0 0 =
     Some \<lparr>tag_of = month_tag,
       rep = \<lparr>year = 2016, month = 1, day = 1, hour = 0, minute = 0, second = 0\<rparr>\<rparr>"
    by code_simp
  have 7: "make_civil_time month_tag 2015 13 1 0 0 0 = make_civil_time month_tag 2016 1 1 0 0 0"
    unfolding 6 by code_simp
  show ?thesis
    using 1 2 3 4 5 6 7 by blast
qed

theorem month_normalization_floor_witness:
  "(- 2147483648::int) \<le> sint (2015::int32) + (sint (- 1::int32) - 1) div 12 \<and>
   sint (2015::int32) + (sint (- 1::int32) - 1) div 12 < (2147483648::int) \<and>
   sint ((2015::int32) + word_of_int ((sint (- 1::int32) - 1) div 12)) = 2014 \<and>
   make_civil_time month_tag 2015 (- 1) 1 0 0 0 =
     Some \<lparr>tag_of = month_tag,
       rep = \<lparr>year = 2014, month = 11, day = 1, hour = 0, minute = 0, second = 0\<rparr>\<rparr>"
proof -
  have h: "(- 2147483648::int) \<le> sint (2015::int32) + (sint (- 1::int32) - 1) div 12"
    "sint (2015::int32) + (sint (- 1::int32) - 1) div 12 < (2147483648::int)"
    by simp_all
  note inst = month_normalization_floor [of 2015 "- 1" 1 0 0 0 0]
  have a: "sint ((2015::int32) + word_of_int ((sint (- 1::int32) - 1) div 12)) =
      sint (2015::int32) + (sint (- 1::int32) - 1) div 12"
    using inst h by blast
  have b: "make_civil_time month_tag 2015 (- 1) 1 0 0 0 =
     Some \<lparr>tag_of = month_tag,
       rep = \<lparr>year = 2015 + word_of_int ((sint (- 1::int32) - 1) div 12),
              month = word_of_int ((sint (- 1::int32) - 1) mod 12 + 1),
              day = 1, hour = 0, minute = 0, second = 0\<rparr>\<rparr>"
    using inst by blast
  have c: "(2015::int32) + word_of_int ((sint (- 1::int32) - 1) div 12) = 2014"
    "(word_of_int ((sint (- 1::int32) - 1) mod 12 + 1) :: int32) = 11"
    by simp_all
  show ?thesis
    using h a b unfolding c by simp
qed

section \<open>The day of the week (C9)\<close>

lemma default_civil_day:
  "default_civil_time day_tag =
     Some \<lparr>tag_of = day_tag,
       rep = \<lparr>year = 1970, month = 1, day = 1, hour = 0, minute = 0, second = 0\<rparr>\<rparr>"
  by code_simp

lemma weekday_index:
  "sint (c_mod (c_mod x 7 + 7) 7) = sint x mod 7"
proof -
  have b: "- 7 < sint x smod 7" "sint x smod 7 < 7"
    using smod_bounds [of 7 "sint x"] by simp_all
  have inner: "sint (c_mod x 7 + 7) = sint x smod 7 + 7"
    using b by (subst sint_add32) (simp_all add: sint_c_mod)
  have "sint (c_mod (c_mod x 7 + 7) 7) = (sint x smod 7 + 7) smod 7"
    by (simp add: sint_c_mod inner)
  also have "\<dots> = (sint x smod 7 + 7) mod 7"
    using b by (simp add: smod_pos)
  also have "\<dots> = sint x mod 7"
  proof (cases "sint x smod 7 < 0")
    case True
    then show ?thesis using sdiv_smod_floor(1) [of 7 "sint x"] by simp
  next
    case False
    then show ?thesis using sdiv_smod_floor(2) [of 7 "sint x"] by simp
  qed
  finally show ?thesis .
qed

lemma get_weekday_exact:
  assumes v: "valid cd" and t: "tag_of cd = day_tag"
    and lo: "- 2147483648 \<le> day_ord (rep cd)" and hi: "day_ord (rep cd) \<le> 2147483647"
  shows "get_weekday cd = Some (k_weekday_by_thu_off ! nat (day_ord (rep cd) mod 7))"
proof -
  have c: "canonical (rep cd)"
    using v by (simp add: valid_def)
  note f = canonical_fields [OF c]
  have "supported day_tag (day_ord (rep cd))"
    using lo hi by (simp add: supported_iff)
  then have y: "- 2147483248 \<le> sint (year (rep cd))"
    using supported_day_year [OF c] by simp
  have e: "ymd_ord 1970 1 1 = 0"
    using ymd_ord_exact [of 1 1970 1]
    by (simp add: days_from_civil_def civil_year_def day_of_civil_year_def)
  have "op_diff cd \<lparr>tag_of = day_tag,
       rep = \<lparr>year = 1970, month = 1, day = 1, hour = 0, minute = 0, second = 0\<rparr>\<rparr>
      = word_of_int (day_ord (rep cd))"
    unfolding op_diff_def t difference.simps ymd_ord_exact [OF f(1,2) y] day_ord_def
    by (simp add: e)
  moreover have "sint (word_of_int (day_ord (rep cd)) :: int32) = day_ord (rep cd)"
    using lo hi by (intro sint_of_int_eq32) simp_all
  ultimately show ?thesis
    by (simp add: get_weekday_def default_civil_day weekday_index)
qed

text \<open>
  C9 (as amended). The weekday of 1970-01-01 is Thursday. \<open>get_weekday\<close> indexes the
  table of seven weekdays, which starts at Thursday, with the difference to the epoch
  reduced modulo 7 to a non-negative remainder. For a day-aligned value \<open>cd\<close> such that
  the day ordinals of \<open>cd\<close> and of \<open>cd + 7\<close> are representable in 32 bits, the index is the
  day ordinal modulo 7 and \<open>cd + 7\<close> has the weekday of \<open>cd\<close>.
\<close>

theorem weekday_periodic:
  "Option.bind (make_civil_time day_tag 1970 1 1 0 0 0) get_weekday = Some thursday \<and>
   k_weekday_by_thu_off ! 0 = thursday \<and> length k_weekday_by_thu_off = 7 \<and>
   (\<exists>epoch. default_civil_time day_tag = Some epoch \<and>
      get_weekday cd = Some (k_weekday_by_thu_off ! nat (sint (op_diff cd epoch) mod 7))) \<and>
   (valid cd \<and> tag_of cd = day_tag \<and>
    - 2147483648 \<le> day_ord (rep cd) \<and> day_ord (rep cd) + 7 \<le> 2147483647 \<longrightarrow>
      get_weekday cd = Some (k_weekday_by_thu_off ! nat (day_ord (rep cd) mod 7)) \<and>
      (\<exists>w. op_plus cd 7 = Some w \<and> valid w \<and> tag_of w = day_tag \<and>
           day_ord (rep w) = day_ord (rep cd) + 7 \<and> get_weekday w = get_weekday cd))"
proof -
  have 1: "Option.bind (make_civil_time day_tag 1970 1 1 0 0 0) get_weekday = Some thursday"
    by code_simp
  have 2: "k_weekday_by_thu_off ! 0 = thursday" "length k_weekday_by_thu_off = 7"
    by (simp_all add: k_weekday_by_thu_off_def)
  have 3: "\<exists>epoch. default_civil_time day_tag = Some epoch \<and>
      get_weekday cd = Some (k_weekday_by_thu_off ! nat (sint (op_diff cd epoch) mod 7))"
    by (simp add: get_weekday_def default_civil_day weekday_index)
  have 4: "get_weekday cd = Some (k_weekday_by_thu_off ! nat (day_ord (rep cd) mod 7)) \<and>
      (\<exists>w. op_plus cd 7 = Some w \<and> valid w \<and> tag_of w = day_tag \<and>
           day_ord (rep w) = day_ord (rep cd) + 7 \<and> get_weekday w = get_weekday cd)"
    if v: "valid cd" and t: "tag_of cd = day_tag"
      and lo: "- 2147483648 \<le> day_ord (rep cd)" and hi: "day_ord (rep cd) + 7 \<le> 2147483647"
  proof -
    have a: "get_weekday cd = Some (k_weekday_by_thu_off ! nat (day_ord (rep cd) mod 7))"
      using v t lo hi by (intro get_weekday_exact) simp_all
    have "safe (tag_of cd) (ordinal (tag_of cd) (rep cd) + sint (7::int32))"
      unfolding t using lo hi by (simp add: safe_day_def)
    from op_plus_assign_exact [OF v this]
    obtain w where w: "op_plus cd 7 = Some w" "valid w" "tag_of w = day_tag"
      "day_ord (rep w) = day_ord (rep cd) + 7"
      unfolding op_plus_eq_assign [OF v] t by auto
    have "get_weekday w = Some (k_weekday_by_thu_off ! nat (day_ord (rep w) mod 7))"
      using w lo hi by (intro get_weekday_exact) simp_all
    then have "get_weekday w = get_weekday cd"
      unfolding a w(4) by simp
    then show ?thesis
      using a w by blast
  qed
  show ?thesis
    using 1 2 3 4 by blast
qed

theorem weekday_periodic_witness:
  "valid \<lparr>tag_of = day_tag,
      rep = \<lparr>year = 2000, month = 3, day = 1, hour = 0, minute = 0, second = 0\<rparr>\<rparr> \<and>
   (- 2147483648::int) \<le> day_ord
      \<lparr>year = 2000, month = 3, day = 1, hour = 0, minute = 0, second = 0\<rparr> \<and>
   day_ord \<lparr>year = 2000, month = 3, day = 1, hour = 0, minute = 0, second = 0\<rparr> + 7
     \<le> (2147483647::int) \<and>
   get_weekday \<lparr>tag_of = day_tag,
      rep = \<lparr>year = 2000, month = 3, day = 1, hour = 0, minute = 0, second = 0\<rparr>\<rparr>
     = Some wednesday \<and>
   (\<exists>w. op_plus \<lparr>tag_of = day_tag,
      rep = \<lparr>year = 2000, month = 3, day = 1, hour = 0, minute = 0, second = 0\<rparr>\<rparr> 7 = Some w \<and>
      day_ord (rep w) = 11024 \<and> get_weekday w = Some wednesday)"
  (is "valid ?a \<and> ?lo \<and> ?hi \<and> ?g \<and> ?p")
proof -
  have o: "day_ord (rep ?a) = 11017"
    by (simp add: day_ord_def days_from_civil_def civil_year_def day_of_civil_year_def)
  have v: "valid ?a"
    by (simp add: valid_def canonical_def canonical_date_def days_in_month_def leap_year_def)
  have t: "tag_of ?a = day_tag"
    by simp
  have lo: "- 2147483648 \<le> day_ord (rep ?a)" and hi: "day_ord (rep ?a) + 7 \<le> 2147483647"
    unfolding o by simp_all
  note inst = weekday_periodic [of ?a]
  have r: "get_weekday ?a = Some (k_weekday_by_thu_off ! nat (day_ord (rep ?a) mod 7)) \<and>
      (\<exists>w. op_plus ?a 7 = Some w \<and> valid w \<and> tag_of w = day_tag \<and>
           day_ord (rep w) = day_ord (rep ?a) + 7 \<and> get_weekday w = get_weekday ?a)"
    using inst v t lo hi by blast
  have g: "get_weekday ?a = Some wednesday"
    using r unfolding o by (simp add: k_weekday_by_thu_off_def)
  obtain w where w: "op_plus ?a 7 = Some w" "day_ord (rep w) = day_ord (rep ?a) + 7"
    "get_weekday w = get_weekday ?a"
    using r by blast
  have p: ?p
    using w unfolding g o by (intro exI [of _ w]) simp
  show ?thesis
    using v lo hi g p o by simp
qed

theorem weekday_periodic_counterexample:
  "valid \<lparr>tag_of = day_tag,
      rep = \<lparr>year = 5881580, month = 7, day = 11, hour = 0, minute = 0, second = 0\<rparr>\<rparr> \<and>
   make_civil_time day_tag 5881580 7 11 0 0 0 =
     Some \<lparr>tag_of = day_tag,
       rep = \<lparr>year = 5881580, month = 7, day = 11, hour = 0, minute = 0, second = 0\<rparr>\<rparr> \<and>
   get_weekday \<lparr>tag_of = day_tag,
      rep = \<lparr>year = 5881580, month = 7, day = 11, hour = 0, minute = 0, second = 0\<rparr>\<rparr>
     = Some friday \<and>
   op_plus \<lparr>tag_of = day_tag,
      rep = \<lparr>year = 5881580, month = 7, day = 11, hour = 0, minute = 0, second = 0\<rparr>\<rparr> 7
     = Some \<lparr>tag_of = day_tag,
         rep = \<lparr>year = 5881580, month = 7, day = 18, hour = 0, minute = 0, second = 0\<rparr>\<rparr> \<and>
   get_weekday \<lparr>tag_of = day_tag,
      rep = \<lparr>year = 5881580, month = 7, day = 18, hour = 0, minute = 0, second = 0\<rparr>\<rparr>
     = Some monday \<and>
   Option.bind (op_plus \<lparr>tag_of = day_tag,
      rep = \<lparr>year = 5881580, month = 7, day = 11, hour = 0, minute = 0, second = 0\<rparr>\<rparr> 7)
      get_weekday
     \<noteq> get_weekday \<lparr>tag_of = day_tag,
      rep = \<lparr>year = 5881580, month = 7, day = 11, hour = 0, minute = 0, second = 0\<rparr>\<rparr>"
  (is "valid ?a \<and> ?m \<and> ?g0 \<and> ?p \<and> ?g1 \<and> ?n")
proof -
  have v: "valid ?a"
    by (simp add: valid_def canonical_def canonical_date_def days_in_month_def)
  have m: ?m
    by code_simp
  have g0: ?g0
    by code_simp
  have p: ?p
    by code_simp
  have g1: ?g1
    by code_simp
  have n: ?n
    unfolding p g0 by (simp add: g1)
  show ?thesis
    using v m g0 p g1 n by blast
qed

section \<open>Binary subtraction of an int (C10)\<close>

text \<open>
  C10. Binary \<open>a - n\<close> is \<open>a\<close> stepped by the negated \<open>n\<close>: it equals \<open>a + (-n)\<close> for
  every \<open>n\<close>, and equals \<open>a -= n\<close> for every \<open>n\<close> other than the minimum int. For
  \<open>n = INT_MIN\<close> the negation wraps to \<open>INT_MIN\<close> itself, so \<open>a - INT_MIN\<close> equals
  \<open>a + INT_MIN\<close>: where that lies in the supported range it is \<open>a\<close> moved backward by
  \<open>2^31\<close> units, while \<open>a -= INT_MIN\<close>, with its two-step split, moves \<open>a\<close> forward by
  \<open>2^31\<close> units where that lies in the supported range.
\<close>

theorem binary_minus_negates:
  "op_minus a n = op_plus a (- n) \<and>
   op_minus a int_min = op_plus a int_min \<and>
   (valid a \<and> n \<noteq> int_min \<longrightarrow> op_minus a n = op_minus_assign a n) \<and>
   (valid a \<and> supported (tag_of a) (ordinal (tag_of a) (rep a) - 2147483648) \<longrightarrow>
      (\<exists>w. op_minus a int_min = Some w \<and> valid w \<and>
         ordinal (tag_of a) (rep w) = ordinal (tag_of a) (rep a) - 2147483648)) \<and>
   (valid a \<and> supported (tag_of a) (ordinal (tag_of a) (rep a) + 2147483648) \<longrightarrow>
      (\<exists>w. op_minus_assign a int_min = Some w \<and> valid w \<and>
         ordinal (tag_of a) (rep w) = ordinal (tag_of a) (rep a) + 2147483648))"
proof -
  have 1: "op_minus a n = op_plus a (- n)"
    by (simp add: op_minus_def op_plus_def)
  have 2: "op_minus a int_min = op_plus a int_min"
    by (simp add: op_minus_def op_plus_def neg_int_min)
  have 3: "op_minus a n = op_minus_assign a n" if v: "valid a" and n: "n \<noteq> int_min"
  proof -
    have "op_minus a n = op_plus_assign a (- n)"
      unfolding 1 by (rule op_plus_eq_assign [OF v])
    then show ?thesis
      using n by (simp add: op_plus_assign_def op_minus_assign_def)
  qed
  have 4: "\<exists>w. op_minus a int_min = Some w \<and> valid w \<and>
         ordinal (tag_of a) (rep w) = ordinal (tag_of a) (rep a) - 2147483648"
    if v: "valid a" and s: "supported (tag_of a) (ordinal (tag_of a) (rep a) - 2147483648)"
  proof -
    have "safe (tag_of a) (ordinal (tag_of a) (rep a) + sint int_min)"
      using supported_safe0 [OF s] by (simp add: sint_int_min)
    from op_plus_assign_exact [OF v this]
    show ?thesis
      unfolding 2 op_plus_eq_assign [OF v] by (auto simp: sint_int_min)
  qed
  have 5: "\<exists>w. op_minus_assign a int_min = Some w \<and> valid w \<and>
         ordinal (tag_of a) (rep w) = ordinal (tag_of a) (rep a) + 2147483648"
    if v: "valid a" and s: "supported (tag_of a) (ordinal (tag_of a) (rep a) + 2147483648)"
  proof -
    have a: "safe (tag_of a) (ordinal (tag_of a) (rep a) - sint int_min)"
      using supported_safe0 [OF s] by (simp add: sint_int_min)
    have b: "safe (tag_of a) (ordinal (tag_of a) (rep a) - sint int_min - 1)"
      using supported_safe [OF s, of "- 1"] by (simp add: sint_int_min)
    from op_minus_assign_exact [OF v a b]
    show ?thesis
      by (auto simp: sint_int_min)
  qed
  show ?thesis
    using 1 2 3 4 5 by blast
qed

theorem binary_minus_negates_witness:
  "valid \<lparr>tag_of = second_tag,
      rep = \<lparr>year = 2000, month = 1, day = 1, hour = 0, minute = 0, second = 0\<rparr>\<rparr> \<and>
   (7 :: int32) \<noteq> int_min \<and>
   op_minus \<lparr>tag_of = second_tag,
      rep = \<lparr>year = 2000, month = 1, day = 1, hour = 0, minute = 0, second = 0\<rparr>\<rparr> 7 =
   op_minus_assign \<lparr>tag_of = second_tag,
      rep = \<lparr>year = 2000, month = 1, day = 1, hour = 0, minute = 0, second = 0\<rparr>\<rparr> 7 \<and>
   supported second_tag (ordinal second_tag
      \<lparr>year = 2000, month = 1, day = 1, hour = 0, minute = 0, second = 0\<rparr> - 2147483648) \<and>
   supported second_tag (ordinal second_tag
      \<lparr>year = 2000, month = 1, day = 1, hour = 0, minute = 0, second = 0\<rparr> + 2147483648) \<and>
   (\<exists>w. op_minus \<lparr>tag_of = second_tag,
      rep = \<lparr>year = 2000, month = 1, day = 1, hour = 0, minute = 0, second = 0\<rparr>\<rparr> int_min =
      Some w \<and> ordinal second_tag (rep w) = 946684800 - 2147483648) \<and>
   (\<exists>w. op_minus_assign \<lparr>tag_of = second_tag,
      rep = \<lparr>year = 2000, month = 1, day = 1, hour = 0, minute = 0, second = 0\<rparr>\<rparr> int_min =
      Some w \<and> ordinal second_tag (rep w) = 946684800 + 2147483648)"
  (is "valid ?a \<and> ?n \<and> ?e \<and> ?s1 \<and> ?s2 \<and> ?m \<and> ?ma")
proof -
  have v: "valid ?a"
    by (simp add: valid_def canonical_def canonical_date_def days_in_month_def)
  have n: ?n by (simp add: int_min_def)
  have t: "tag_of ?a = second_tag" by simp
  have o: "ordinal (tag_of ?a) (rep ?a) = 946684800"
    by (simp add: day_ord_def days_from_civil_def civil_year_def day_of_civil_year_def)
  have o2: "ordinal second_tag
      \<lparr>year = 2000, month = 1, day = 1, hour = 0, minute = 0, second = 0\<rparr> = 946684800"
    by (simp add: day_ord_def days_from_civil_def civil_year_def day_of_civil_year_def)
  have o3: "ordinal second_tag (rep ?a) = 946684800"
    using o by simp
  have s1': "supported (tag_of ?a) (ordinal (tag_of ?a) (rep ?a) - 2147483648)"
    and s2': "supported (tag_of ?a) (ordinal (tag_of ?a) (rep ?a) + 2147483648)"
    unfolding o by (simp_all add: supported_iff)
  have s1: ?s1 and s2: ?s2
    unfolding o2 by (simp_all add: supported_iff)
  note inst = binary_minus_negates [of ?a 7]
  have e: ?e using inst v n by blast
  obtain w where w: "op_minus ?a int_min = Some w"
    "ordinal (tag_of ?a) (rep w) = ordinal (tag_of ?a) (rep ?a) - 2147483648"
    using inst v s1' by blast
  have m: ?m
    using w unfolding t o3 by (intro exI [of _ w]) simp
  obtain u where u: "op_minus_assign ?a int_min = Some u"
    "ordinal (tag_of ?a) (rep u) = ordinal (tag_of ?a) (rep ?a) + 2147483648"
    using inst v s2' by blast
  have ma: ?ma
    using u unfolding t o3 by (intro exI [of _ u]) simp
  show ?thesis
    using v n e s1 s2 m ma by blast
qed


end
